theory Spec2Isabelle
  imports Main "HOL-Library.Sublist"
begin

section \<open>Python values and exceptions\<close>

text \<open>
  Every exception that the modelled part of \<^verbatim>\<open>forge/cli.py\<close> can raise is a
  value of \<open>error\<close>. \<open>TypeError\<close> also stands for the exception Python raises
  when a parsed JSON value that is not a string is used where a string is needed.
\<close>

datatype error =
    CLIError string
  | KeyError string
  | TypeError
  | ValueError
  | AttributeError
  | IndexError
  | OSError

definition bind_e :: "error + 'a \<Rightarrow> ('a \<Rightarrow> error + 'b) \<Rightarrow> error + 'b" where
  "bind_e m f = (case m of Inl e \<Rightarrow> Inl e | Inr x \<Rightarrow> f x)"

text \<open>What \<^verbatim>\<open>response.json()\<close> returns: a parsed JSON document.\<close>

datatype json =
    JNull
  | JBool bool
  | JNum int
  | JStr string
  | JArr "json list"
  | JObj "(string \<times> json) list"

text \<open>Python's truth value of a parsed JSON value.\<close>

fun truthy :: "json \<Rightarrow> bool" where
  "truthy JNull = False"
| "truthy (JBool b) = b"
| "truthy (JNum n) = (n \<noteq> 0)"
| "truthy (JStr s) = (s \<noteq> [])"
| "truthy (JArr xs) = (xs \<noteq> [])"
| "truthy (JObj kvs) = (kvs \<noteq> [])"

text \<open>
  \<^verbatim>\<open>key in value\<close> for a string key: key membership in a dict, element
  membership in a list, substring test on a string, \<^verbatim>\<open>TypeError\<close> otherwise.
\<close>

fun py_in :: "string \<Rightarrow> json \<Rightarrow> error + bool" where
  "py_in k (JObj kvs) = Inr (k \<in> set (map fst kvs))"
| "py_in k (JArr xs) = Inr (JStr k \<in> set xs)"
| "py_in k (JStr s) = Inr (sublist k s)"
| "py_in k v = Inl TypeError"

text \<open>\<^verbatim>\<open>value[key]\<close> for a string key: only a dict can be indexed by a string.\<close>

fun py_getitem :: "json \<Rightarrow> string \<Rightarrow> error + json" where
  "py_getitem (JObj kvs) k = (case map_of kvs k of None \<Rightarrow> Inl (KeyError k) | Some v \<Rightarrow> Inr v)"
| "py_getitem v k = Inl TypeError"

text \<open>\<^verbatim>\<open>value[0]\<close>.\<close>

fun py_getitem0 :: "json \<Rightarrow> error + json" where
  "py_getitem0 (JArr []) = Inl IndexError"
| "py_getitem0 (JArr (x # xs)) = Inr x"
| "py_getitem0 (JStr []) = Inl IndexError"
| "py_getitem0 (JStr (c # cs)) = Inr (JStr [c])"
| "py_getitem0 (JObj kvs) = Inl (KeyError ''0'')"
| "py_getitem0 v = Inl TypeError"

text \<open>Iterating over a value: the elements of a list, the keys of a dict, the characters of a string.\<close>

fun py_iter :: "json \<Rightarrow> error + json list" where
  "py_iter (JArr xs) = Inr xs"
| "py_iter (JObj kvs) = Inr (map (\<lambda>kv. JStr (fst kv)) kvs)"
| "py_iter (JStr s) = Inr (map (\<lambda>c. JStr [c]) s)"
| "py_iter v = Inl TypeError"

text \<open>
  \<^verbatim>\<open>result.extend(more)\<close>: only a list has \<^verbatim>\<open>extend\<close> (the attribute
  is looked up before the argument is evaluated); the argument is then iterated.
\<close>

definition py_extend :: "json \<Rightarrow> error + json \<Rightarrow> error + json" where
  "py_extend result more =
     (case result of
        JArr xs \<Rightarrow> bind_e more (\<lambda>m. bind_e (py_iter m) (\<lambda>ys. Inr (JArr (xs @ ys))))
      | _ \<Rightarrow> Inl AttributeError)"

definition as_str :: "json \<Rightarrow> error + string" where
  "as_str v = (case v of JStr s \<Rightarrow> Inr s | _ \<Rightarrow> Inl TypeError)"

section \<open>Strings and paths\<close>

definition is_space :: "char \<Rightarrow> bool" where
  "is_space c = (c \<in> set [CHR '' '', CHR 0x09, CHR 0x0A, CHR 0x0B, CHR 0x0C, CHR 0x0D])"

text \<open>\<^verbatim>\<open>s.split()\<close>: the maximal runs of non-whitespace characters.\<close>

fun split_acc :: "string \<Rightarrow> string \<Rightarrow> string list" where
  "split_acc cur [] = (if cur = [] then [] else [cur])"
| "split_acc cur (c # cs) =
     (if is_space c then (if cur = [] then split_acc [] cs else cur # split_acc [] cs)
      else split_acc (cur @ [c]) cs)"

definition py_split :: "string \<Rightarrow> string list" where
  "py_split s = split_acc [] s"

definition py_strip :: "string \<Rightarrow> string" where
  "py_strip s = rev (dropWhile is_space (rev (dropWhile is_space s)))"

text \<open>\<^verbatim>\<open>sep.join(xs)\<close>.\<close>

fun py_join :: "string \<Rightarrow> string list \<Rightarrow> string" where
  "py_join sep [] = []"
| "py_join sep [x] = x"
| "py_join sep (x # y # ys) = x @ sep @ py_join sep (y # ys)"

text \<open>
  \<^verbatim>\<open>s.split(sep, 1)\<close> for a non-empty separator: \<open>find_sep\<close> gives the text
  before and after the first occurrence, \<open>None\<close> when there is none (the split is
  then the one-element list \<^verbatim>\<open>[s]\<close>).
\<close>

fun find_sep :: "string \<Rightarrow> string \<Rightarrow> (string \<times> string) option" where
  "find_sep sep [] = None"
| "find_sep sep (c # cs) =
     (if prefix sep (c # cs) then Some ([], drop (length sep) (c # cs))
      else map_option (\<lambda>ab. (c # fst ab, snd ab)) (find_sep sep cs))"

text \<open>\<^verbatim>\<open>s.lower()\<close> on ASCII text.\<close>

definition lower_char :: "char \<Rightarrow> char" where
  "lower_char c =
     (case map_of (zip ''ABCDEFGHIJKLMNOPQRSTUVWXYZ'' ''abcdefghijklmnopqrstuvwxyz'') c of
        Some l \<Rightarrow> l
      | None \<Rightarrow> c)"

definition lower :: "string \<Rightarrow> string" where
  "lower s = map lower_char s"

text \<open>\<^verbatim>\<open>os.path.join(a, b)\<close> on POSIX.\<close>

definition os_path_join :: "string \<Rightarrow> string \<Rightarrow> string" where
  "os_path_join a b =
     (if prefix ''/'' b then b
      else if a = [] \<or> last a = CHR ''/'' then a @ b
      else a @ ''/'' @ b)"

section \<open>Command arguments with secrets\<close>

text \<open>
  Modelled from the spec: \<^verbatim>\<open>Secret\<close> and \<^verbatim>\<open>Elidable\<close> of
  \<^verbatim>\<open>forge/workstream.py\<close>, which is not among the sources. An argument is a plain
  string, a secret, or an \<^verbatim>\<open>Elidable\<close> sequence of parts; the spec says that any
  status or log rendering substitutes a credential with a fixed redaction marker, never
  the raw value. \<open>elide marker\<close> is that rendering, \<open>reveal\<close> the text the
  subprocess receives.
\<close>

datatype arg =
    Str string
  | NoneArg
  | Secret "string option"
  | Elidable "arg list"

fun elide :: "string \<Rightarrow> arg \<Rightarrow> string" where
  "elide marker (Str s) = s"
| "elide marker NoneArg = ''None''"
| "elide marker (Secret x) = marker"
| "elide marker (Elidable ps) = concat (map (elide marker) ps)"

fun reveal :: "arg \<Rightarrow> string" where
  "reveal (Str s) = s"
| "reveal NoneArg = ''None''"
| "reveal (Secret x) = (case x of None \<Rightarrow> ''None'' | Some s \<Rightarrow> s)"
| "reveal (Elidable ps) = concat (map reveal ps)"

text \<open>
  Modelled from the spec: the status line of a command in the execution ledger, the
  renderings of its arguments separated by blanks.
\<close>

definition status_line :: "string \<Rightarrow> arg list \<Rightarrow> string" where
  "status_line marker argv = py_join '' '' (map (elide marker) argv)"

text \<open>
  \<^verbatim>\<open>
  def inject_token(url, token):
      if not token: return url
      parts = url.split("://", 1)
      if len(parts) == 2:
          return Elidable("%s://" % parts[0], Secret(token), "@%s" % parts[1])
      else:
          return Elidable(Secret(token), "@%s" % parts[0])
  \<close>
  The token is \<^verbatim>\<open>None\<close> or a string; both \<^verbatim>\<open>None\<close> and the empty string
  are false.
\<close>

definition inject_token :: "string \<Rightarrow> string option \<Rightarrow> arg" where
  "inject_token url token =
     (case token of
        None \<Rightarrow> Str url
      | Some t \<Rightarrow>
          if t = [] then Str url
          else (case find_sep ''://'' url of
                  Some (scheme, rest) \<Rightarrow>
                    Elidable [Str (scheme @ ''://''), Secret (Some t), Str (''@'' @ rest)]
                | None \<Rightarrow> Elidable [Secret (Some t), Str (''@'' @ url)]))"

section \<open>The world: the execution ledger, HTTP and the file system\<close>

record request =
  req_url :: string
  req_headers :: "(string \<times> string) list option"
  req_auth :: "(string option \<times> string option) option"
  req_expected :: "nat list option"

record response =
  status_code :: nat
  headers :: "(string \<times> string) list"
  json_body :: "json option"
  content :: string

text \<open>
  \<^verbatim>\<open>response.ok\<close> of the \<^verbatim>\<open>requests\<close> library: false exactly for the
  client and server error statuses for which \<^verbatim>\<open>raise_for_status\<close> raises.
\<close>

definition ok :: "response \<Rightarrow> bool" where
  "ok r = (\<not> (400 \<le> status_code r \<and> status_code r < 600))"

text \<open>
  \<^verbatim>\<open>response.headers\<close> is a case-insensitive dictionary:
  \<^verbatim>\<open>response.headers[name]\<close> finds the header whatever the case of its name,
  and \<^verbatim>\<open>name in response.headers\<close> holds when it finds one. The headers of a
  response are kept as the list of their names and values.
\<close>

definition header :: "response \<Rightarrow> string \<Rightarrow> string option" where
  "header r name = map_of (map (\<lambda>kv. (lower (fst kv), snd kv)) (headers r)) (lower name)"

text \<open>\<^verbatim>\<open>response.json()\<close> raises \<^verbatim>\<open>ValueError\<close> when the body is not JSON.\<close>

definition json_of :: "response \<Rightarrow> error + json" where
  "json_of r = (case json_body r of None \<Rightarrow> Inl ValueError | Some j \<Rightarrow> Inr j)"

text \<open>
  What the program does to the world, in the order it does it: a command handed to
  \<^verbatim>\<open>self.call\<close> (arguments, \<^verbatim>\<open>cwd\<close>, \<^verbatim>\<open>verbose\<close>), a request handed
  to \<^verbatim>\<open>self.get\<close>, a file written, a directory created.
\<close>

datatype event =
    Call "arg list" "string option" bool
  | Get request
  | Write string string
  | Makedirs string

text \<open>
  Modelled from the spec: \<^verbatim>\<open>Service\<close> of \<^verbatim>\<open>forge/common.py\<close>, which is
  not among the sources; the spec gives it a name, a version, a root path and an ordered
  list of container contexts. The descriptor is the path of its \<^verbatim>\<open>service.yaml\<close>.
\<close>

record service =
  svc_name :: string
  svc_version :: string
  svc_root :: string
  svc_descriptor :: string
  svc_containers :: "string list"

text \<open>
  The collaborators that are not in \<^verbatim>\<open>forge/cli.py\<close> are parameters. The ledger
  (\<^verbatim>\<open>Workstream.call\<close>, \<^verbatim>\<open>Workstream.get\<close>) and the file system answer as a
  function of everything done so far, the last event being the command or request
  itself; \<^verbatim>\<open>get\<close> may raise (an unexpected status), and the spec gives
  \<^verbatim>\<open>call\<close> a result with an output. The others are library functions
  (\<^verbatim>\<open>requests.utils.parse_header_links\<close>, \<^verbatim>\<open>urllib2.parse_keqv_list\<close> of
  \<^verbatim>\<open>urllib2.parse_http_list\<close>, \<^verbatim>\<open>fnmatch.fnmatch\<close>, \<^verbatim>\<open>os.path.relpath\<close>,
  \<^verbatim>\<open>%s\<close> formatting of a JSON value that is not a string) and the helpers of
  \<^verbatim>\<open>forge/common.py\<close> (\<^verbatim>\<open>image\<close>, here \<open>image_ref\<close>,
  \<^verbatim>\<open>containers\<close>, the name, root and dumped metadata of a \<^verbatim>\<open>Service\<close>).
  In a request, \<open>req_expected\<close> is \<open>None\<close> when no tolerated status is given.
\<close>

record env =
  cmd_output :: "event list \<Rightarrow> string"
  http_get :: "event list \<Rightarrow> error + response"
  path_exists :: "event list \<Rightarrow> string \<Rightarrow> bool"
  parse_header_links :: "string \<Rightarrow> (string \<times> string) list list"
  parse_challenge :: "string \<Rightarrow> error + (string \<times> string) list"
  fnmatch :: "string \<Rightarrow> string \<Rightarrow> bool"
  relpath :: "string \<Rightarrow> string \<Rightarrow> string"
  repr :: "json \<Rightarrow> string"
  image_ref :: "string \<Rightarrow> string \<Rightarrow> string \<Rightarrow> string \<Rightarrow> string"
  containers :: "service list \<Rightarrow> (service \<times> string \<times> string) list"
  service_name :: "string \<Rightarrow> string"
  service_root :: "string \<Rightarrow> string"
  service_metadata :: "service \<Rightarrow> string \<Rightarrow> string \<Rightarrow> string \<times> string"

text \<open>The attributes that \<^verbatim>\<open>main\<close> sets on the \<^verbatim>\<open>Baker\<close>.\<close>

record config =
  workdir :: string
  org :: string
  token :: "string option"
  pattern :: string
  registry :: string
  repo :: string
  user :: "string option"
  password :: "string option"
  dry_run :: bool

text \<open>
  A computation in the world takes the ledger so far and gives the extended ledger with
  a value, an exception, or \<open>None\<close> when it does not return.
\<close>

type_synonym 'a io = "event list \<Rightarrow> (error + 'a) option \<times> event list"

definition return_io :: "'a \<Rightarrow> 'a io" where
  "return_io x = (\<lambda>log. (Some (Inr x), log))"

definition raise_io :: "error \<Rightarrow> 'a io" where
  "raise_io e = (\<lambda>log. (Some (Inl e), log))"

definition lift_e :: "error + 'a \<Rightarrow> 'a io" where
  "lift_e m = (\<lambda>log. (Some m, log))"

definition bind_io :: "'a io \<Rightarrow> ('a \<Rightarrow> 'b io) \<Rightarrow> 'b io" where
  "bind_io m f = (\<lambda>log.
     case m log of
       (None, log') \<Rightarrow> (None, log')
     | (Some (Inl e), log') \<Rightarrow> (Some (Inl e), log')
     | (Some (Inr x), log') \<Rightarrow> f x log')"

definition call :: "env \<Rightarrow> arg list \<Rightarrow> string option \<Rightarrow> bool \<Rightarrow> string io" where
  "call E argv cwd verbose = (\<lambda>log.
     let log' = log @ [Call argv cwd verbose] in (Some (Inr (cmd_output E log')), log'))"

definition get :: "env \<Rightarrow> request \<Rightarrow> response io" where
  "get E req = (\<lambda>log. let log' = log @ [Get req] in (Some (http_get E log'), log'))"

definition write_file :: "string \<Rightarrow> string \<Rightarrow> unit io" where
  "write_file path text = (\<lambda>log. (Some (Inr ()), log @ [Write path text]))"

definition makedirs :: "string \<Rightarrow> unit io" where
  "makedirs path = (\<lambda>log. (Some (Inr ()), log @ [Makedirs path]))"

definition exists_io :: "env \<Rightarrow> string \<Rightarrow> bool io" where
  "exists_io E path = (\<lambda>log. (Some (Inr (path_exists E log path)), log))"

section \<open>The fan-out primitive\<close>

text \<open>
  \<^verbatim>\<open>OMIT = object()\<close>: a mapped function returns either the sentinel or an
  ordinary value, and \<^verbatim>\<open>async_map\<close> tests \<^verbatim>\<open>result is not OMIT\<close>.
\<close>

datatype 'b outcome = OMIT | Val 'b

text \<open>
  \<^verbatim>\<open>
  def async_map(fun, sequence):
      threads = []
      for item in sequence:
          threads.append(eventlet.spawn(fun, item))
      for thread in threads:
          result = thread.wait()
          if result is not OMIT:
              yield result
  \<close>
  The first loop spawns thread \<open>i\<close> for item \<open>i\<close>. The green-thread runtime then
  runs the spawned bodies; the order in which they finish is the runtime's choice and
  is the parameter \<open>sched\<close>: the threads named in \<open>sched\<close> finish first, in that
  order, the remaining ones afterwards in spawn order, so every spawned thread is run
  exactly once. A body transforms the world \<open>'s\<close> and returns, raises, or does not
  finish (\<open>None\<close>); each body is run as one step. The second loop waits for the threads
  in list order: \<open>wait\<close> gives what the body returned, raises what it raised, and does
  not return for a thread that never finishes. The values yielded before an exception
  are not part of the result: no caller in this file acts on them.
\<close>

type_synonym ('a, 'b, 's) job = "'a \<Rightarrow> 's \<Rightarrow> (error + 'b outcome) option \<times> 's"

definition run_order :: "nat \<Rightarrow> nat list \<Rightarrow> nat list" where
  "run_order n sched =
     filter (\<lambda>i. i < n) (remdups sched) @ filter (\<lambda>i. i \<notin> set sched) [0..<n]"

definition run_thread ::
  "('a, 'b, 's) job \<Rightarrow> 'a list \<Rightarrow> nat \<Rightarrow>
   (nat \<times> (error + 'b outcome)) list \<times> 's \<Rightarrow> (nat \<times> (error + 'b outcome)) list \<times> 's" where
  "run_thread fn items i = (\<lambda>(finished, s).
     case fn (items ! i) s of
       (None, s') \<Rightarrow> (finished, s')
     | (Some r, s') \<Rightarrow> (finished @ [(i, r)], s'))"

fun wait_threads :: "(nat \<rightharpoonup> error + 'b outcome) \<Rightarrow> nat list \<Rightarrow> (error + 'b list) option" where
  "wait_threads res [] = Some (Inr [])"
| "wait_threads res (t # ts) =
     (case res t of
        None \<Rightarrow> None
      | Some (Inl e) \<Rightarrow> Some (Inl e)
      | Some (Inr OMIT) \<Rightarrow> wait_threads res ts
      | Some (Inr (Val v)) \<Rightarrow>
          (case wait_threads res ts of
             None \<Rightarrow> None
           | Some (Inl e) \<Rightarrow> Some (Inl e)
           | Some (Inr vs) \<Rightarrow> Some (Inr (v # vs))))"

definition async_map ::
  "('a, 'b, 's) job \<Rightarrow> 'a list \<Rightarrow> nat list \<Rightarrow> 's \<Rightarrow> (error + 'b list) option \<times> 's" where
  "async_map fn items sched s =
     (case fold (run_thread fn items) (run_order (length items) sched) ([], s) of
        (finished, s') \<Rightarrow> (wait_threads (map_of finished) [0..<length items], s'))"

text \<open>
  \<^verbatim>\<open>force(sequence)\<close> drives the generator and drops the values. The callers in
  this file are modelled with the threads finishing in spawn order.
\<close>

definition force :: "'b list io \<Rightarrow> unit io" where
  "force m = bind_io m (\<lambda>vs. return_io ())"

text \<open>A per-item function without effects and without exceptions, as a job.\<close>

definition pure_job :: "('a \<Rightarrow> 'b outcome) \<Rightarrow> ('a, 'b, 's) job" where
  "pure_job f = (\<lambda>item s. (Some (Inr (f item)), s))"

text \<open>The values among a list of results, in order, the skip marker removed.\<close>

fun kept :: "'b outcome list \<Rightarrow> 'b list" where
  "kept [] = []"
| "kept (OMIT # rs) = kept rs"
| "kept (Val v # rs) = v # kept rs"

section \<open>Remote sync\<close>

text \<open>
  \<^verbatim>\<open>
  def next_page(response):
      if "Link" in response.headers:
          links = requests.utils.parse_header_links(response.headers["Link"])
          for link in links:
              if link['rel'] == 'next':
                  return link['url']
      return None
  \<close>
\<close>

fun find_next :: "(string \<times> string) list list \<Rightarrow> error + string option" where
  "find_next [] = Inr None"
| "find_next (link # links) =
     (case map_of link ''rel'' of
        None \<Rightarrow> Inl (KeyError ''rel'')
      | Some rel \<Rightarrow>
          if rel = ''next''
          then (case map_of link ''url'' of
                  None \<Rightarrow> Inl (KeyError ''url'')
                | Some url \<Rightarrow> Inr (Some url))
          else find_next links)"

definition next_page :: "env \<Rightarrow> response \<Rightarrow> error + string option" where
  "next_page E response =
     (case header response ''Link'' of
        None \<Rightarrow> Inr None
      | Some h \<Rightarrow> find_next (parse_header_links E h))"

text \<open>
  \<^verbatim>\<open>
  def gh(self, api, expected=None):
      headers = {'Authorization': 'token %s' % self.token} if self.token else None
      response = self.get("https://api.github.com/%s" % api, headers=headers, expected=expected)
      result = response.json()
      if response.ok:
          next_url = next_page(response)
          while next_url:
              response = self.get(next_url, headers=headers)
              result.extend(response.json())
              next_url = next_page(response)
      return result
  \<close>
  The loop may run forever (a chain of links need not end), so \<open>gh_pages\<close> takes
  fuel, one unit per request of the loop, and does not return when it runs out.
\<close>

definition gh_headers :: "config \<Rightarrow> (string \<times> string) list option" where
  "gh_headers cfg =
     (case token cfg of
        None \<Rightarrow> None
      | Some t \<Rightarrow> if t = [] then None else Some [(''Authorization'', ''token '' @ t)])"

definition gh_request :: "config \<Rightarrow> string \<Rightarrow> nat list option \<Rightarrow> request" where
  "gh_request cfg api expected =
     \<lparr>req_url = ''https://api.github.com/'' @ api, req_headers = gh_headers cfg,
      req_auth = None, req_expected = expected\<rparr>"

definition page_request :: "config \<Rightarrow> string \<Rightarrow> request" where
  "page_request cfg next_url =
     \<lparr>req_url = next_url, req_headers = gh_headers cfg, req_auth = None, req_expected = None\<rparr>"

fun gh_pages :: "env \<Rightarrow> config \<Rightarrow> nat \<Rightarrow> string option \<Rightarrow> json \<Rightarrow> json io" where
  "gh_pages E cfg fuel None result log = return_io result log"
| "gh_pages E cfg 0 (Some next_url) result log =
     (if next_url = [] then return_io result log else (None, log))"
| "gh_pages E cfg (Suc fuel) (Some next_url) result log =
     (if next_url = [] then return_io result log
      else bind_io (get E (page_request cfg next_url)) (\<lambda>response.
           bind_io (lift_e (py_extend result (json_of response))) (\<lambda>result'.
           bind_io (lift_e (next_page E response)) (\<lambda>next_url'.
           gh_pages E cfg fuel next_url' result'))) log)"

definition gh :: "env \<Rightarrow> config \<Rightarrow> string \<Rightarrow> nat list option \<Rightarrow> nat \<Rightarrow> json io" where
  "gh E cfg api expected fuel =
     bind_io (get E (gh_request cfg api expected)) (\<lambda>response.
     bind_io (lift_e (json_of response)) (\<lambda>result.
     if ok response
     then bind_io (lift_e (next_page E response)) (\<lambda>next_url.
          gh_pages E cfg fuel next_url result)
     else return_io result))"

text \<open>
  \<^verbatim>\<open>
  def git_pull(self, name, url):
      repodir = os.path.join(self.workdir, name)
      if not os.path.exists(repodir):
          os.makedirs(repodir)
          self.call("git", "init", cwd=repodir)
      self.call("git", "pull", inject_token(url, self.token), cwd=repodir)
  \<close>
  The name and the URL come from a JSON body; one that is not a string is an error.
  As a job of the fan-out, \<^verbatim>\<open>git_pull\<close> returns \<^verbatim>\<open>None\<close>, which is not the
  skip marker.
\<close>

definition git_pull :: "env \<Rightarrow> config \<Rightarrow> json \<times> json \<Rightarrow> unit outcome io" where
  "git_pull E cfg = (\<lambda>(name, url).
     bind_io (lift_e (as_str name)) (\<lambda>n.
     let repodir = os_path_join (workdir cfg) n in
     bind_io (exists_io E repodir) (\<lambda>there.
     bind_io (if \<not> there
              then bind_io (makedirs repodir) (\<lambda>u.
                   bind_io (call E [Str ''git'', Str ''init''] (Some repodir) False) (\<lambda>r.
                   return_io ()))
              else return_io ()) (\<lambda>u.
     bind_io (lift_e (as_str url)) (\<lambda>link.
     bind_io (call E [Str ''git'', Str ''pull'', inject_token link (token cfg)] (Some repodir) False)
       (\<lambda>r. return_io (Val ())))))))"

text \<open>
  \<^verbatim>\<open>
  def pull(self):
      repos = self.gh("orgs/%s/repos" % self.org)
      filtered = [r for r in repos if fnmatch.fnmatch(r["full_name"], self.filter)]

      urls = []
      for repo in async_map(lambda r: self.gh("repos/%s" % r["full_name"], expected=(404,)),
                            filtered):
          if "id" in repo:
              urls.append((repo["full_name"], repo["clone_url"]))

      force(async_apply(self.git_pull, urls))
  \<close>
  \<open>pull_filter\<close> is the list comprehension, \<open>pull_verify\<close> the mapped function,
  \<open>pull_urls\<close> the body of the \<^verbatim>\<open>for\<close> loop over the results. When a later
  thread and the loop body for an earlier result both raise, Python reports the loop
  body's exception and the model the thread's.
\<close>

fun pull_filter :: "env \<Rightarrow> config \<Rightarrow> json list \<Rightarrow> error + json list" where
  "pull_filter E cfg [] = Inr []"
| "pull_filter E cfg (r # rs) =
     bind_e (py_getitem r ''full_name'') (\<lambda>n.
     bind_e (as_str n) (\<lambda>s.
     bind_e (pull_filter E cfg rs) (\<lambda>rest.
     Inr (if fnmatch E s (pattern cfg) then r # rest else rest))))"

definition pull_verify :: "env \<Rightarrow> config \<Rightarrow> nat \<Rightarrow> json \<Rightarrow> json outcome io" where
  "pull_verify E cfg fuel r =
     bind_io (lift_e (bind_e (py_getitem r ''full_name'') as_str)) (\<lambda>n.
     bind_io (gh E cfg (''repos/'' @ n) (Some [404]) fuel) (\<lambda>body.
     return_io (Val body)))"

fun pull_urls :: "json list \<Rightarrow> error + (json \<times> json) list" where
  "pull_urls [] = Inr []"
| "pull_urls (body # rest) =
     bind_e (py_in ''id'' body) (\<lambda>has_id.
     if has_id
     then bind_e (py_getitem body ''full_name'') (\<lambda>n.
          bind_e (py_getitem body ''clone_url'') (\<lambda>u.
          bind_e (pull_urls rest) (\<lambda>urls. Inr ((n, u) # urls))))
     else pull_urls rest)"

definition pull :: "env \<Rightarrow> config \<Rightarrow> nat \<Rightarrow> unit io" where
  "pull E cfg fuel =
     bind_io (gh E cfg (''orgs/'' @ org cfg @ ''/repos'') None fuel) (\<lambda>repos.
     bind_io (lift_e (bind_e (py_iter repos) (pull_filter E cfg))) (\<lambda>filtered.
     bind_io (async_map (pull_verify E cfg fuel) filtered []) (\<lambda>bodies.
     bind_io (lift_e (pull_urls bodies)) (\<lambda>urls.
     force (async_map (git_pull E cfg) urls [])))))"

section \<open>Workspace scanner\<close>

text \<open>
  The workspace as \<^verbatim>\<open>os.listdir\<close> and \<^verbatim>\<open>os.path.isdir\<close> show it: a
  directory is the list of its entries, each a name with a file or a directory.
\<close>

datatype node = File | Dir "(string \<times> node) list"

record scan_state =
  prototypes :: "string list"
  services :: "service list"
  ledger :: "event list"

definition EXCLUDED :: "string list" where
  "EXCLUDED = [''.git'']"

text \<open>
  \<^verbatim>\<open>
  version = self.call("git", "rev-parse", "HEAD", cwd=path).output.strip()
  svc = Service(version, os.path.join(path, "service.yaml"), [])
  services.append(svc)
  parent = svc
  \<close>
  The new service is the last element of \<^verbatim>\<open>services\<close>; \<^verbatim>\<open>parent\<close> is kept
  as its index in that list, so that appending to \<^verbatim>\<open>parent.containers\<close> changes
  the object the list holds.
\<close>

definition found_service :: "env \<Rightarrow> string \<Rightarrow> scan_state \<Rightarrow> scan_state" where
  "found_service E path st =
     (let log' = ledger st @ [Call [Str ''git'', Str ''rev-parse'', Str ''HEAD''] (Some path) False];
          version = py_strip (cmd_output E log');
          descriptor = os_path_join path ''service.yaml'';
          svc = \<lparr>svc_name = service_name E descriptor, svc_version = version,
                 svc_root = service_root E descriptor, svc_descriptor = descriptor,
                 svc_containers = []\<rparr>
      in st\<lparr>services := services st @ [svc], ledger := log'\<rparr>)"

text \<open>
  \<^verbatim>\<open>
  parent.containers.append(os.path.relpath(os.path.join(path, "Dockerfile"), parent.root))
  \<close>
\<close>

definition add_container :: "env \<Rightarrow> string \<Rightarrow> nat \<Rightarrow> scan_state \<Rightarrow> scan_state" where
  "add_container E path i st =
     (let svc = services st ! i;
          c = relpath E (os_path_join path ''Dockerfile'') (svc_root svc)
      in st\<lparr>services := (services st)[i := svc\<lparr>svc_containers := svc_containers svc @ [c]\<rparr>]\<rparr>)"

text \<open>
  \<^verbatim>\<open>
  def descend(path, parent):
      names = os.listdir(path)

      if "proto.yaml" in names:
          prototypes.append(Prototype(os.path.join(path, "proto.yaml")))
          return
      if "service.yaml" in names:
          ... (found_service)
      if "Dockerfile" in names and parent:
          ... (add_container)

      for n in names:
          if n not in self.EXCLUDED and os.path.isdir(os.path.join(path, n)):
              descend(os.path.join(path, n), parent)
  \<close>
  \<open>descend\<close> takes the entries of the directory at \<open>path\<close>. \<open>enter\<close> is the
  part between the prototype test and the loop: it gives the \<^verbatim>\<open>parent\<close> that
  the loop passes on and the new state. \<open>descend_each\<close> is the \<^verbatim>\<open>for\<close> loop
  over the entries that remain. A prototype is kept as the path of its
  \<^verbatim>\<open>proto.yaml\<close>.
\<close>

definition has_name :: "string \<Rightarrow> (string \<times> node) list \<Rightarrow> bool" where
  "has_name n entries = (n \<in> set (map fst entries))"

definition add_prototype :: "string \<Rightarrow> scan_state \<Rightarrow> scan_state" where
  "add_prototype path st = st\<lparr>prototypes := prototypes st @ [os_path_join path ''proto.yaml'']\<rparr>"

definition enter ::
  "env \<Rightarrow> string \<Rightarrow> nat option \<Rightarrow> (string \<times> node) list \<Rightarrow> scan_state \<Rightarrow> nat option \<times> scan_state" where
  "enter E path parent entries st =
     (let st1 = (if has_name ''service.yaml'' entries then found_service E path st else st);
          parent1 = (if has_name ''service.yaml'' entries
                     then Some (length (services st)) else parent);
          st2 = (if has_name ''Dockerfile'' entries
                 then (case parent1 of None \<Rightarrow> st1 | Some i \<Rightarrow> add_container E path i st1)
                 else st1)
      in (parent1, st2))"

fun descend :: "env \<Rightarrow> string \<Rightarrow> nat option \<Rightarrow> (string \<times> node) list \<Rightarrow> scan_state \<Rightarrow> scan_state"
and descend_each :: "env \<Rightarrow> string \<Rightarrow> nat option \<Rightarrow> (string \<times> node) list \<Rightarrow> scan_state \<Rightarrow> scan_state" where
  "descend E path parent entries st =
     (if has_name ''proto.yaml'' entries then add_prototype path st
      else descend_each E path (fst (enter E path parent entries st)) entries
             (snd (enter E path parent entries st)))"
| "descend_each E path parent [] st = st"
| "descend_each E path parent ((n, File) # rest) st = descend_each E path parent rest st"
| "descend_each E path parent ((n, Dir sub) # rest) st =
     (if n \<in> set EXCLUDED then descend_each E path parent rest st
      else descend_each E path parent rest (descend E (os_path_join path n) parent sub st))"

text \<open>
  \<^verbatim>\<open>
  def scan(self):
      prototypes = []
      services = []
      ...
      descend(self.workdir, None)
      return prototypes, services
  \<close>
  \<^verbatim>\<open>os.listdir\<close> raises when the work directory is not a directory.
\<close>

definition scan :: "env \<Rightarrow> config \<Rightarrow> node \<Rightarrow> (string list \<times> service list) io" where
  "scan E cfg root = (\<lambda>log.
     case root of
       File \<Rightarrow> (Some (Inl OSError), log)
     | Dir entries \<Rightarrow>
         (let st = descend E (workdir cfg) None entries
                     \<lparr>prototypes = [], services = [], ledger = log\<rparr>
          in (Some (Inr (prototypes st, services st)), ledger st)))"

section \<open>Registry state resolver\<close>

text \<open>
  \<^verbatim>\<open>
  def baked(self, name, version):
      result = self.call("docker", "images", "-q", image(self.registry, self.repo, name, version))
      return result.output
  \<close>
\<close>

definition baked :: "env \<Rightarrow> config \<Rightarrow> string \<Rightarrow> string \<Rightarrow> string io" where
  "baked E cfg name version =
     call E [Str ''docker'', Str ''images'', Str ''-q'',
             Str (image_ref E (registry cfg) (repo cfg) name version)] None False"

text \<open>
  \<^verbatim>\<open>
  def pushed(self, name, version):
      url = "https://%s/v2/%s/%s/manifests/%s" % (self.registry, self.repo, name, version)
      response = self.get(url, auth=(self.user, self.password), expected=(404, 401))
      if response.status_code == 401:
          challenge = response.headers['Www-Authenticate']
          if challenge.startswith("Bearer "):
              challenge = challenge[7:]
          opts = urllib2.parse_keqv_list(urllib2.parse_http_list(challenge))
          token = self.get("{realm}?service={service}&scope={scope}".format(**opts),
                           auth=(self.user, self.password)).json()['token']
          response = self.get(url, headers={'Authorization': 'Bearer %s' % token}, expected=(404,))
      result = response.json()
      if 'signatures' in result and 'fsLayers' in result:
          return True
      elif 'errors' in result and result['errors']:
          if result['errors'][0]['code'] == 'MANIFEST_UNKNOWN':
              return False
      raise CLIError(response.content)
  \<close>
\<close>

definition manifest_url :: "config \<Rightarrow> string \<Rightarrow> string \<Rightarrow> string" where
  "manifest_url cfg name version =
     ''https://'' @ registry cfg @ ''/v2/'' @ repo cfg @ ''/'' @ name @ ''/manifests/'' @ version"

definition manifest_request :: "config \<Rightarrow> string \<Rightarrow> string \<Rightarrow> request" where
  "manifest_request cfg name version =
     \<lparr>req_url = manifest_url cfg name version, req_headers = None,
      req_auth = Some (user cfg, password cfg), req_expected = Some [404, 401]\<rparr>"

definition strip_bearer :: "string \<Rightarrow> string" where
  "strip_bearer challenge = (if prefix ''Bearer '' challenge then drop 7 challenge else challenge)"

definition lookup_key :: "(string \<times> string) list \<Rightarrow> string \<Rightarrow> error + string" where
  "lookup_key opts k = (case map_of opts k of None \<Rightarrow> Inl (KeyError k) | Some v \<Rightarrow> Inr v)"

definition token_url :: "(string \<times> string) list \<Rightarrow> error + string" where
  "token_url opts =
     bind_e (lookup_key opts ''realm'') (\<lambda>realm.
     bind_e (lookup_key opts ''service'') (\<lambda>service.
     bind_e (lookup_key opts ''scope'') (\<lambda>scope.
     Inr (realm @ ''?service='' @ service @ ''&scope='' @ scope))))"

definition format_s :: "env \<Rightarrow> json \<Rightarrow> string" where
  "format_s E v = (case v of JStr s \<Rightarrow> s | _ \<Rightarrow> repr E v)"

definition authenticate :: "env \<Rightarrow> config \<Rightarrow> string \<Rightarrow> response \<Rightarrow> response io" where
  "authenticate E cfg url response =
     bind_io (lift_e (case header response ''Www-Authenticate'' of
                        None \<Rightarrow> Inl (KeyError ''Www-Authenticate'')
                      | Some c \<Rightarrow> Inr c)) (\<lambda>challenge.
     bind_io (lift_e (bind_e (parse_challenge E (strip_bearer challenge)) token_url)) (\<lambda>turl.
     bind_io (get E \<lparr>req_url = turl, req_headers = None,
                     req_auth = Some (user cfg, password cfg), req_expected = None\<rparr>) (\<lambda>reply.
     bind_io (lift_e (bind_e (json_of reply) (\<lambda>j. py_getitem j ''token''))) (\<lambda>tok.
     get E \<lparr>req_url = url, req_headers = Some [(''Authorization'', ''Bearer '' @ format_s E tok)],
            req_auth = None, req_expected = Some [404]\<rparr>))))"

text \<open>The decision on the body of the last response, from \<^verbatim>\<open>result = response.json()\<close> on.\<close>

definition has_both :: "json \<Rightarrow> error + bool" where
  "has_both result =
     bind_e (py_in ''signatures'' result) (\<lambda>sig.
     if sig then py_in ''fsLayers'' result else Inr False)"

definition has_errors :: "json \<Rightarrow> error + bool" where
  "has_errors result =
     bind_e (py_in ''errors'' result) (\<lambda>err.
     if err then bind_e (py_getitem result ''errors'') (\<lambda>errs. Inr (truthy errs)) else Inr False)"

definition first_code :: "json \<Rightarrow> error + json" where
  "first_code result =
     bind_e (py_getitem result ''errors'') (\<lambda>errs.
     bind_e (py_getitem0 errs) (\<lambda>first. py_getitem first ''code''))"

definition pushed_result :: "response \<Rightarrow> error + bool" where
  "pushed_result response =
     bind_e (json_of response) (\<lambda>result.
     bind_e (has_both result) (\<lambda>both.
     if both then Inr True
     else bind_e (has_errors result) (\<lambda>errs.
          if errs
          then bind_e (first_code result) (\<lambda>code.
               if code = JStr ''MANIFEST_UNKNOWN'' then Inr False
               else Inl (CLIError (content response)))
          else Inl (CLIError (content response)))))"

definition pushed :: "env \<Rightarrow> config \<Rightarrow> string \<Rightarrow> string \<Rightarrow> bool io" where
  "pushed E cfg name version =
     bind_io (get E (manifest_request cfg name version)) (\<lambda>response.
     bind_io (if status_code response = 401
              then authenticate E cfg (manifest_url cfg name version) response
              else return_io response) (\<lambda>response'.
     lift_e (pushed_result response')))"

text \<open>
  \<^verbatim>\<open>
  def is_raw(self, name, version):
      return not self.pushed(name, version) or self.baked(name, version)
  \<close>
  The value is \<^verbatim>\<open>True\<close> or the output of \<^verbatim>\<open>docker images\<close>, a string; its
  truth value is what the caller tests.
\<close>

definition is_raw :: "env \<Rightarrow> config \<Rightarrow> string \<Rightarrow> string \<Rightarrow> json io" where
  "is_raw E cfg name version =
     bind_io (pushed E cfg name version) (\<lambda>p.
     if \<not> p then return_io (JBool True)
     else bind_io (baked E cfg name version) (\<lambda>out. return_io (JStr out)))"

text \<open>
  \<^verbatim>\<open>
  def push(self):
      prototypes, services = self.scan()

      local = list(async_apply(lambda svc, name, container:
                                   (svc, name, container) if (self.baked(name, svc.version) and
                                                              not self.pushed(name, svc.version)) else OMIT,
                               containers(services)))

      if local: self.call("docker", "login", "-u", self.user, "-p", Secret(self.password), self.registry)
      force(async_apply(lambda svc, name, container:
                            self.call("docker", "push", image(self.registry, self.repo, name, svc.version)),
                        local))
  \<close>
\<close>

definition push_select ::
  "env \<Rightarrow> config \<Rightarrow> service \<times> string \<times> string \<Rightarrow> (service \<times> string \<times> string) outcome io" where
  "push_select E cfg = (\<lambda>(svc, name, container).
     bind_io (baked E cfg name (svc_version svc)) (\<lambda>built.
     if built \<noteq> []
     then bind_io (pushed E cfg name (svc_version svc)) (\<lambda>p.
          return_io (if \<not> p then Val (svc, name, container) else OMIT))
     else return_io OMIT))"

definition docker_push :: "env \<Rightarrow> config \<Rightarrow> service \<times> string \<times> string \<Rightarrow> event" where
  "docker_push E cfg = (\<lambda>(svc, name, container).
     Call [Str ''docker'', Str ''push'',
           Str (image_ref E (registry cfg) (repo cfg) name (svc_version svc))] None False)"

definition push_image ::
  "env \<Rightarrow> config \<Rightarrow> service \<times> string \<times> string \<Rightarrow> string outcome io" where
  "push_image E cfg = (\<lambda>(svc, name, container).
     bind_io (call E [Str ''docker'', Str ''push'',
                      Str (image_ref E (registry cfg) (repo cfg) name (svc_version svc))] None False)
       (\<lambda>out. return_io (Val out)))"

definition opt_arg :: "string option \<Rightarrow> arg" where
  "opt_arg x = (case x of None \<Rightarrow> NoneArg | Some s \<Rightarrow> Str s)"

definition docker_login :: "env \<Rightarrow> config \<Rightarrow> unit io" where
  "docker_login E cfg =
     bind_io (call E [Str ''docker'', Str ''login'', Str ''-u'', opt_arg (user cfg),
                      Str ''-p'', Secret (password cfg), Str (registry cfg)] None False)
       (\<lambda>out. return_io ())"

definition push :: "env \<Rightarrow> config \<Rightarrow> node \<Rightarrow> unit io" where
  "push E cfg root =
     bind_io (scan E cfg root) (\<lambda>(protos, svcs).
     bind_io (async_map (push_select E cfg) (containers E svcs) []) (\<lambda>local.
     bind_io (if local \<noteq> [] then docker_login E cfg else return_io ()) (\<lambda>u.
     force (async_map (push_image E cfg) local []))))"

section \<open>Deploy coordinator\<close>

text \<open>
  \<^verbatim>\<open>
  for resource in resources:
      if resource in owners:
          conflicts.append((resource, owners[resource].name, svc.name))
      else:
          owners[resource] = svc
  \<close>
  \<^verbatim>\<open>owners\<close> is an \<^verbatim>\<open>OrderedDict\<close>: an association list in insertion
  order, with at most one entry for a key.
\<close>

type_synonym ownership = "(string \<times> service) list"
type_synonym conflict = "string \<times> string \<times> string"

fun claim :: "service \<Rightarrow> string list \<Rightarrow> ownership \<times> conflict list \<Rightarrow> ownership \<times> conflict list" where
  "claim svc [] oc = oc"
| "claim svc (resource # rest) (owners, conflicts) =
     (case map_of owners resource of
        Some owner \<Rightarrow>
          claim svc rest (owners, conflicts @ [(resource, svc_name owner, svc_name svc)])
      | None \<Rightarrow> claim svc rest (owners @ [(resource, svc)], conflicts))"

text \<open>
  The body of \<^verbatim>\<open>for svc in services\<close>:
  \<^verbatim>\<open>
  filename, metadata = svc.metadata(self.registry, self.repo)
  with open(filename, "write") as f:
      yaml.dump(metadata, f)
  result = self.call("./deployment", "metadata.yaml", cwd=svc.root)
  kube_file = os.path.join(svc.root, "kube.yaml")
  with open(kube_file, "write") as f:
      f.write(result.output)
  resources = self.call("kubectl", "apply", "--dry-run", "-f", kube_file, "-o", "name").output.split()
  for resource in resources: ... (claim)
  kube_files.append(kube_file)
  \<close>
  \<open>service_metadata\<close> gives the file name and the dumped text.
\<close>

record deploy_state =
  owners :: ownership
  conflicts :: "conflict list"
  kube_files :: "string list"

text \<open>
  \<^verbatim>\<open>owners = OrderedDict()\<close>, \<^verbatim>\<open>conflicts = []\<close>,
  \<^verbatim>\<open>kube_files = []\<close>.
\<close>

definition initial :: deploy_state where
  "initial = \<lparr>owners = [], conflicts = [], kube_files = []\<rparr>"

definition kube_file_of :: "service \<Rightarrow> string" where
  "kube_file_of svc = os_path_join (svc_root svc) ''kube.yaml''"

definition dry_run_call :: "string \<Rightarrow> event" where
  "dry_run_call kube_file =
     Call [Str ''kubectl'', Str ''apply'', Str ''--dry-run'', Str ''-f'', Str kube_file,
           Str ''-o'', Str ''name''] None False"

definition deploy_service :: "env \<Rightarrow> config \<Rightarrow> service \<Rightarrow> deploy_state \<Rightarrow> deploy_state io" where
  "deploy_service E cfg svc st =
     (let (filename, metadata) = service_metadata E svc (registry cfg) (repo cfg) in
      bind_io (write_file filename metadata) (\<lambda>u.
      bind_io (call E [Str ''./deployment'', Str ''metadata.yaml''] (Some (svc_root svc)) False) (\<lambda>result.
      bind_io (write_file (kube_file_of svc) result) (\<lambda>u.
      bind_io (call E [Str ''kubectl'', Str ''apply'', Str ''--dry-run'', Str ''-f'',
                       Str (kube_file_of svc), Str ''-o'', Str ''name''] None False) (\<lambda>out.
      (case claim svc (py_split out) (owners st, conflicts st) of
         (owners', conflicts') \<Rightarrow>
           return_io \<lparr>owners = owners', conflicts = conflicts',
                      kube_files = kube_files st @ [kube_file_of svc]\<rparr>))))))"

fun deploy_services :: "env \<Rightarrow> config \<Rightarrow> service list \<Rightarrow> deploy_state \<Rightarrow> deploy_state io" where
  "deploy_services E cfg [] st log = return_io st log"
| "deploy_services E cfg (svc # svcs) st log =
     bind_io (deploy_service E cfg svc st) (deploy_services E cfg svcs) log"

text \<open>
  \<^verbatim>\<open>
  for kube_file in kube_files:
      cmd = "kubectl", "apply", "-f", kube_file
      if self.dry_run:
          cmd += "--dry-run",
      self.call(*cmd, verbose=True)
  \<close>
\<close>

definition apply_cmd :: "config \<Rightarrow> string \<Rightarrow> arg list" where
  "apply_cmd cfg kube_file =
     [Str ''kubectl'', Str ''apply'', Str ''-f'', Str kube_file]
     @ (if dry_run cfg then [Str ''--dry-run''] else [])"

fun apply_all :: "env \<Rightarrow> config \<Rightarrow> string list \<Rightarrow> unit io" where
  "apply_all E cfg [] log = return_io () log"
| "apply_all E cfg (kube_file # rest) log =
     bind_io (call E (apply_cmd cfg kube_file) None True) (\<lambda>out. apply_all E cfg rest) log"

text \<open>
  \<^verbatim>\<open>
  if conflicts:
      messages = ", ".join("%s defined by %s and %s" % c for c in conflicts)
      raise CLIError("conflicts: %s" % messages)
  else:
      ... (apply_all)
  \<close>
\<close>

definition conflict_message :: "conflict \<Rightarrow> string" where
  "conflict_message = (\<lambda>(resource, first, second).
     resource @ '' defined by '' @ first @ '' and '' @ second)"

definition conflicts_error :: "conflict list \<Rightarrow> error" where
  "conflicts_error cs = CLIError (''conflicts: '' @ py_join '', '' (map conflict_message cs))"

definition deploy :: "env \<Rightarrow> config \<Rightarrow> node \<Rightarrow> unit io" where
  "deploy E cfg root =
     bind_io (scan E cfg root) (\<lambda>(protos, svcs).
     bind_io (deploy_services E cfg svcs initial) (\<lambda>st.
     if conflicts st \<noteq> [] then raise_io (conflicts_error (conflicts st))
     else apply_all E cfg (kube_files st)))"

text \<open>
  A call that commits a manifest to the cluster: \<^verbatim>\<open>kubectl apply -f file\<close>,
  followed by nothing or by \<^verbatim>\<open>--dry-run\<close> (the shape of the calls of the final
  loop of \<^verbatim>\<open>deploy\<close>).
\<close>

fun is_apply :: "event \<Rightarrow> bool" where
  "is_apply (Call (Str k # Str a # Str f # rest) cwd verbose) =
     (k = ''kubectl'' \<and> a = ''apply'' \<and> f = ''-f'')"
| "is_apply ev = False"

section \<open>The library parsers, for the worked examples\<close>

text \<open>
  \<^verbatim>\<open>s.strip(chars)\<close>, and \<^verbatim>\<open>s.split(c)\<close> for a one-character separator.
\<close>

definition strip_chars :: "string \<Rightarrow> string \<Rightarrow> string" where
  "strip_chars cs s =
     rev (dropWhile (\<lambda>c. c \<in> set cs) (rev (dropWhile (\<lambda>c. c \<in> set cs) s)))"

fun split_on :: "char \<Rightarrow> string \<Rightarrow> string \<Rightarrow> string list" where
  "split_on c cur [] = [cur]"
| "split_on c cur (x # s) = (if x = c then cur # split_on c [] s else split_on c (cur @ [x]) s)"

text \<open>
  \<^verbatim>\<open>requests.utils.parse_header_links\<close>:
  \<^verbatim>\<open>
  def parse_header_links(value):
      links = []
      replace_chars = ' \'"'
      value = value.strip(replace_chars)
      if not value:
          return links
      for val in re.split(', *<', value):
          try:
              url, params = val.split(';', 1)
          except ValueError:
              url, params = val, ''
          link = {'url': url.strip('<> \'"')}
          for param in params.split(';'):
              try:
                  key, value = param.split('=')
              except ValueError:
                  break
              link[key.strip(replace_chars)] = value.strip(replace_chars)
          links.append(link)
      return links
  \<close>
  \<open>split_links\<close> is \<^verbatim>\<open>re.split(', *<', value)\<close>: it reads the text from
  left to right, \<open>Some k\<close> meaning that a comma and \<open>k\<close> blanks have just been
  read and may start a separator. A link is the list of its keys and values, the latest
  first, so that a later value for a key hides an earlier one.
\<close>

definition replace_chars :: string where
  "replace_chars = [CHR '' '', CHR 0x27, CHR 0x22]"

fun split_links :: "string \<Rightarrow> nat option \<Rightarrow> string \<Rightarrow> string list" where
  "split_links cur None [] = [cur]"
| "split_links cur (Some k) [] = [cur @ '','' @ replicate k CHR '' '']"
| "split_links cur None (c # s) =
     (if c = CHR '','' then split_links cur (Some 0) s else split_links (cur @ [c]) None s)"
| "split_links cur (Some k) (c # s) =
     (if c = CHR '' '' then split_links cur (Some (Suc k)) s
      else if c = CHR ''<'' then cur # split_links [] None s
      else if c = CHR '','' then split_links (cur @ '','' @ replicate k CHR '' '') (Some 0) s
      else split_links (cur @ '','' @ replicate k CHR '' '' @ [c]) None s)"

fun add_params :: "(string \<times> string) list \<Rightarrow> string list \<Rightarrow> (string \<times> string) list" where
  "add_params link [] = link"
| "add_params link (param # params) =
     (case split_on CHR ''='' [] param of
        [key, v] \<Rightarrow>
          add_params ((strip_chars replace_chars key, strip_chars replace_chars v) # link) params
      | _ \<Rightarrow> link)"

definition parse_link :: "string \<Rightarrow> (string \<times> string) list" where
  "parse_link val =
     (case find_sep '';'' val of
        Some (url, params) \<Rightarrow>
          add_params [(''url'', strip_chars (''<>'' @ replace_chars) url)] (split_on CHR '';'' [] params)
      | None \<Rightarrow>
          add_params [(''url'', strip_chars (''<>'' @ replace_chars) val)] (split_on CHR '';'' [] []))"

definition parse_links :: "string \<Rightarrow> (string \<times> string) list list" where
  "parse_links v =
     (if strip_chars replace_chars v = [] then []
      else map parse_link (split_links [] None (strip_chars replace_chars v)))"

text \<open>
  \<^verbatim>\<open>urllib2.parse_keqv_list(urllib2.parse_http_list(s))\<close>:
  \<^verbatim>\<open>
  def parse_http_list(s):
      res = []
      part = ''
      escape = quote = False
      for cur in s:
          if escape:
              part += cur
              escape = False
              continue
          if quote:
              if cur == '\\':
                  escape = True
                  continue
              elif cur == '"':
                  quote = False
              part += cur
              continue
          if cur == ',':
              res.append(part)
              part = ''
              continue
          if cur == '"':
              quote = True
          part += cur
      if part:
          res.append(part)
      return [part.strip() for part in res]

  def parse_keqv_list(l):
      parsed = {}
      for elt in l:
          k, v = elt.split('=', 1)
          if v[0] == '"' and v[-1] == '"':
              v = v[1:-1]
          parsed[k] = v
      return parsed
  \<close>
\<close>

fun http_list :: "string \<Rightarrow> bool \<Rightarrow> bool \<Rightarrow> string \<Rightarrow> string list" where
  "http_list part escape quote [] = (if part \<noteq> [] then [part] else [])"
| "http_list part escape quote (cur # s) =
     (if escape then http_list (part @ [cur]) False quote s
      else if quote then
        (if cur = CHR 0x5C then http_list part True quote s
         else if cur = CHR 0x22 then http_list (part @ [cur]) False False s
         else http_list (part @ [cur]) False quote s)
      else if cur = CHR '','' then part # http_list [] False False s
      else if cur = CHR 0x22 then http_list (part @ [cur]) False True s
      else http_list (part @ [cur]) False quote s)"

definition parse_http_list :: "string \<Rightarrow> string list" where
  "parse_http_list s = map py_strip (http_list [] False False s)"

definition unquote :: "string \<Rightarrow> string" where
  "unquote v = (if hd v = CHR 0x22 \<and> last v = CHR 0x22 then butlast (tl v) else v)"

fun parse_keqv_list :: "(string \<times> string) list \<Rightarrow> string list \<Rightarrow> error + (string \<times> string) list" where
  "parse_keqv_list parsed [] = Inr parsed"
| "parse_keqv_list parsed (elt # l) =
     (case find_sep ''='' elt of
        None \<Rightarrow> Inl ValueError
      | Some (k, v) \<Rightarrow>
          if v = [] then Inl IndexError else parse_keqv_list ((k, unquote v) # parsed) l)"

text \<open>A text between double quotes.\<close>

definition quoted :: "string \<Rightarrow> string" where
  "quoted s = [CHR 0x22] @ s @ [CHR 0x22]"

section \<open>Concrete worlds for the worked examples\<close>

text \<open>
  A world whose ledger answers a request and a command by looking at that request or
  command alone. Link headers and challenges are parsed as the libraries parse them;
  the image reference is \<^verbatim>\<open>registry/repo/name:version\<close>; a service is named by
  its root, the text of its descriptor before \<^verbatim>\<open>/service.yaml\<close>.
\<close>

definition demo_env :: "(request \<Rightarrow> error + response) \<Rightarrow> (arg list \<Rightarrow> string) \<Rightarrow> env" where
  "demo_env web shell =
     \<lparr>cmd_output = (\<lambda>log. case last log of Call argv cwd verbose \<Rightarrow> shell argv | _ \<Rightarrow> []),
      http_get = (\<lambda>log. case last log of Get req \<Rightarrow> web req | _ \<Rightarrow> Inl ValueError),
      path_exists = (\<lambda>log path. False),
      parse_header_links = parse_links,
      parse_challenge = (\<lambda>c. parse_keqv_list [] (parse_http_list c)),
      fnmatch = (\<lambda>name pat. True),
      relpath = (\<lambda>path start. drop (Suc (length start)) path),
      repr = (\<lambda>v. ''?''),
      image_ref = (\<lambda>reg rp name version. reg @ ''/'' @ rp @ ''/'' @ name @ '':'' @ version),
      containers = (\<lambda>svcs. concat (map (\<lambda>s. map (\<lambda>c. (s, svc_name s, c)) (svc_containers s)) svcs)),
      service_name = (\<lambda>descriptor. take (length descriptor - 13) descriptor),
      service_root = (\<lambda>descriptor. take (length descriptor - 13) descriptor),
      service_metadata = (\<lambda>svc reg rp. (os_path_join (svc_root svc) ''metadata.yaml'', svc_name svc))\<rparr>"

definition demo_config :: config where
  "demo_config =
     \<lparr>workdir = ''/w'', org = ''acme'', token = Some ''s3cr3t'', pattern = ''*'',
      registry = ''reg.io'', repo = ''acme'', user = Some ''bot'', password = Some ''pw'',
      dry_run = False\<rparr>"

definition reply :: "nat \<Rightarrow> (string \<times> string) list \<Rightarrow> json \<Rightarrow> response" where
  "reply status hdrs body =
     \<lparr>status_code = status, headers = hdrs, json_body = Some body, content = ''body''\<rparr>"

text \<open>A registry that knows no manifest and answers the first request with an error list.\<close>

definition unknown_body :: json where
  "unknown_body = JObj [(''errors'', JArr [JObj [(''code'', JStr ''MANIFEST_UNKNOWN'')]])]"

definition open_registry :: "request \<Rightarrow> error + response" where
  "open_registry req = Inr (reply 404 [] unknown_body)"

text \<open>
  A registry that asks for a bearer token: \<^verbatim>\<open>401\<close> with the challenge
  \<^verbatim>\<open>Bearer realm="https://auth.io/token",service="registry",scope="pull"\<close>
  in a header named in lower case, a token endpoint, and \<^verbatim>\<open>404\<close> with the
  error list for the authorised request.
\<close>

definition challenge :: string where
  "challenge =
     ''Bearer realm='' @ quoted ''https://auth.io/token'' @ '',service='' @ quoted ''registry''
     @ '',scope='' @ quoted ''pull''"

definition private_registry :: "request \<Rightarrow> error + response" where
  "private_registry req =
     (if req_url req = ''https://auth.io/token?service=registry&scope=pull''
      then Inr (reply 200 [] (JObj [(''token'', JStr ''t0k'')]))
      else if req_headers req = Some [(''Authorization'', ''Bearer t0k'')]
      then Inr (reply 404 [] unknown_body)
      else Inr (reply 401 [(''www-authenticate'', challenge)] JNull))"

text \<open>A registry that answers \<^verbatim>\<open>404\<close> with an empty JSON object.\<close>

definition bare_registry :: "request \<Rightarrow> error + response" where
  "bare_registry req = Inr (reply 404 [] (JObj []))"

text \<open>A registry that has every manifest, and a local image store that has no image.\<close>

definition full_registry :: "request \<Rightarrow> error + response" where
  "full_registry req =
     Inr (reply 200 [] (JObj [(''signatures'', JArr []), (''fsLayers'', JArr [])]))"

definition no_output :: "arg list \<Rightarrow> string" where
  "no_output argv = []"

text \<open>
  A hosting API with four pages of results, chained by link headers of the form
  \<^verbatim>\<open><url>; rel="next", <url>; rel="last"\<close> (one of them named in lower case,
  the last page with a link to the first page only); and one where every repository is
  gone, answering \<^verbatim>\<open>404\<close> with a link header all the same.
\<close>

definition next_and_last :: "string \<Rightarrow> string" where
  "next_and_last url =
     ''<'' @ url @ ''>; rel='' @ quoted ''next'' @ '', <https://x.io/p4>; rel='' @ quoted ''last''"

definition paged_api :: "request \<Rightarrow> error + response" where
  "paged_api req =
     (if req_url req = ''https://api.github.com/orgs/acme/repos''
      then Inr (reply 200 [(''Link'', next_and_last ''https://x.io/p2'')] (JArr [JNum 1]))
      else if req_url req = ''https://x.io/p2''
      then Inr (reply 200 [(''link'', next_and_last ''https://x.io/p3'')] (JArr [JNum 2]))
      else if req_url req = ''https://x.io/p3''
      then Inr (reply 200 [(''Link'', next_and_last ''https://x.io/p4'')] (JArr [JNum 3]))
      else Inr (reply 200 [(''Link'', ''<https://x.io/p1>; rel='' @ quoted ''first'')]
                  (JArr [JNum 4])))"

definition gone_api :: "request \<Rightarrow> error + response" where
  "gone_api req =
     (if req_url req = ''https://api.github.com/orgs/acme/repos''
      then Inr (reply 200 [] (JArr [JObj [(''full_name'', JStr ''acme/app'')]]))
      else Inr (reply 404 [(''Link'', next_and_last ''https://x.io/p2'')]
                  (JObj [(''message'', JStr ''Not Found'')])))"

text \<open>
  A workspace with two services and a cluster tool that reports, for the dry run of a
  manifest, the resource names given for its file.
\<close>

definition two_services :: node where
  "two_services =
     Dir [(''s1'', Dir [(''service.yaml'', File)]), (''s2'', Dir [(''service.yaml'', File)])]"

definition cluster :: "string \<Rightarrow> string \<Rightarrow> arg list \<Rightarrow> string" where
  "cluster names1 names2 argv =
     (if argv = [Str ''kubectl'', Str ''apply'', Str ''--dry-run'', Str ''-f'',
                 Str ''/w/s1/kube.yaml'', Str ''-o'', Str ''name''] then names1
      else if argv = [Str ''kubectl'', Str ''apply'', Str ''--dry-run'', Str ''-f'',
                      Str ''/w/s2/kube.yaml'', Str ''-o'', Str ''name''] then names2
      else [])"

definition demo_service :: "string \<Rightarrow> string list \<Rightarrow> service" where
  "demo_service root cs =
     \<lparr>svc_name = root, svc_version = [], svc_root = root,
      svc_descriptor = root @ ''/service.yaml'', svc_containers = cs\<rparr>"

text \<open>
  Three clusters: one where both services declare the resource \<^verbatim>\<open>b\<close>, one where
  they declare different resources, and one where the first service declares the
  resource \<^verbatim>\<open>a\<close> twice.
\<close>

definition shared_cluster :: env where
  "shared_cluster = demo_env open_registry (cluster ''a b'' ''b c'')"

definition disjoint_cluster :: env where
  "disjoint_cluster = demo_env open_registry (cluster ''a'' ''b'')"

definition repeating_cluster :: env where
  "repeating_cluster = demo_env open_registry (cluster ''a a'' [])"

text \<open>A cluster in which both services declare the resources \<^verbatim>\<open>a\<close> and \<^verbatim>\<open>b\<close>.\<close>

definition contested_cluster :: env where
  "contested_cluster = demo_env open_registry (cluster ''a b'' ''a b'')"

text \<open>
  A workspace with one service that has a container context, in a world where every
  command prints an image id and the registry knows no manifest.
\<close>

definition one_container :: node where
  "one_container = Dir [(''s1'', Dir [(''service.yaml'', File), (''Dockerfile'', File)])]"

definition built_world :: env where
  "built_world = demo_env open_registry (\<lambda>argv. ''4f2a'')"

definition built_service :: service where
  "built_service =
     \<lparr>svc_name = ''/w/s1'', svc_version = ''4f2a'', svc_root = ''/w/s1'',
      svc_descriptor = ''/w/s1/service.yaml'', svc_containers = [''Dockerfile'']\<rparr>"

text \<open>
  A workspace with a container definition at the top, a prototype that also holds a
  service marker and a container definition, and a service with container definitions
  in its own directory, in a subdirectory and under \<^verbatim>\<open>.git\<close>.
\<close>

definition mixed_workspace :: "(string \<times> node) list" where
  "mixed_workspace =
     [(''Dockerfile'', File),
      (''proto'', Dir [(''proto.yaml'', File), (''service.yaml'', File), (''Dockerfile'', File)]),
      (''s1'', Dir [(''service.yaml'', File), (''Dockerfile'', File),
                    (''sub'', Dir [(''Dockerfile'', File)]),
                    (''.git'', Dir [(''Dockerfile'', File)])])]"

definition mixed_service :: service where
  "mixed_service =
     \<lparr>svc_name = ''/w/s1'', svc_version = ''4f2a'', svc_root = ''/w/s1'',
      svc_descriptor = ''/w/s1/service.yaml'',
      svc_containers = [''Dockerfile'', ''sub/Dockerfile'']\<rparr>"

section \<open>Auxiliary notions for the statements\<close>

text \<open>
  The plain text that \<open>inject_token\<close> puts before and after the secret: a function
  of the URL alone.
\<close>

definition plain_parts :: "string \<Rightarrow> string list \<times> string list" where
  "plain_parts url =
     (case find_sep ''://'' url of
        Some (scheme, rest) \<Rightarrow> ([scheme @ ''://''], [''@'' @ rest])
      | None \<Rightarrow> ([], [''@'' @ url]))"

text \<open>
  The resource names of a list of claims that are claimed again: those already among
  the names seen, the names of the list itself being seen from their first occurrence on.
\<close>

fun reclaimed :: "string list \<Rightarrow> string list \<Rightarrow> string list" where
  "reclaimed seen [] = []"
| "reclaimed seen (r # rs) =
     (if r \<in> set seen then r # reclaimed seen rs else reclaimed (seen @ [r]) rs)"

text \<open>The owner on record for a resource name once the service \<open>svc\<close> has claimed it.\<close>

definition owner_after :: "ownership \<Rightarrow> service \<Rightarrow> string \<Rightarrow> service" where
  "owner_after os svc r = (case map_of os r of Some owner \<Rightarrow> owner | None \<Rightarrow> svc)"

text \<open>
  The manifest file of a service, the dry run that reads the resource names of a
  manifest file (recognised in the ledger by \<open>generated\<close>, which gives the file), and
  the text that lists conflicts: each as \<^verbatim>\<open>name defined by first and second\<close>,
  separated by a comma and a blank.
\<close>

definition manifest_of :: "service \<Rightarrow> string" where
  "manifest_of s = svc_root s @ (if svc_root s = [] \<or> last (svc_root s) = CHR ''/'' then [] else ''/'')
     @ ''kube.yaml''"

definition generated :: "event \<Rightarrow> string option" where
  "generated ev =
     (case ev of
        Call argv cwd verbose \<Rightarrow>
          (case argv of
             [a1, a2, a3, a4, Str file, a6, a7] \<Rightarrow>
               if ev = Call [Str ''kubectl'', Str ''apply'', Str ''--dry-run'', Str ''-f'', Str file,
                             Str ''-o'', Str ''name''] None False
               then Some file else None
           | _ \<Rightarrow> None)
      | _ \<Rightarrow> None)"

fun listing :: "conflict list \<Rightarrow> string" where
  "listing [] = []"
| "listing [(r, a, b)] = r @ '' defined by '' @ a @ '' and '' @ b"
| "listing ((r, a, b) # c # cs) =
     r @ '' defined by '' @ a @ '' and '' @ b @ '', '' @ listing (c # cs)"

text \<open>
  The GET request of the hosting API for a URL: with the token in an
  \<^verbatim>\<open>Authorization\<close> header if a token is configured, without credentials of
  another kind, tolerating the statuses \<open>tolerated\<close>.
\<close>

definition api_get :: "config \<Rightarrow> string \<Rightarrow> nat list option \<Rightarrow> request" where
  "api_get cfg url tolerated =
     \<lparr>req_url = url,
      req_headers = (if token cfg = None \<or> token cfg = Some [] then None
                     else Some [(''Authorization'', ''token '' @ the (token cfg))]),
      req_auth = None, req_expected = tolerated\<rparr>"

text \<open>
  The value of the link header of a response, whatever the case of its name; the parsed
  links of a header in which the first link of relation \<^verbatim>\<open>next\<close> has the URL
  \<open>url\<close>, every link before it having another relation; and those without a link of
  relation \<^verbatim>\<open>next\<close>, every link having a relation.
\<close>

definition link_header :: "response \<Rightarrow> string option" where
  "link_header r =
     (case filter (\<lambda>kv. lower (fst kv) = ''link'') (headers r) of
        [] \<Rightarrow> None
      | kv # kvs \<Rightarrow> Some (snd kv))"

definition next_link_is :: "(string \<times> string) list list \<Rightarrow> string \<Rightarrow> bool" where
  "next_link_is links url =
     (\<exists>before link after.
        links = before @ link # after \<and>
        (\<forall>l \<in> set before. \<exists>rel. map_of l ''rel'' = Some rel \<and> rel \<noteq> ''next'') \<and>
        map_of link ''rel'' = Some ''next'' \<and> map_of link ''url'' = Some url)"

definition no_next_link :: "(string \<times> string) list list \<Rightarrow> bool" where
  "no_next_link links = (\<forall>l \<in> set links. \<exists>rel. map_of l ''rel'' = Some rel \<and> rel \<noteq> ''next'')"

definition carries_next :: "env \<Rightarrow> response \<Rightarrow> string \<Rightarrow> bool" where
  "carries_next E r url =
     (\<exists>h. link_header r = Some h \<and> next_link_is (parse_header_links E h) url)"

definition carries_no_next :: "env \<Rightarrow> response \<Rightarrow> bool" where
  "carries_no_next E r =
     (case link_header r of None \<Rightarrow> True | Some h \<Rightarrow> no_next_link (parse_header_links E h))"

text \<open>The call with which \<open>found_service\<close> asks for the revision of a service.\<close>

definition rev_parse :: "string \<Rightarrow> event" where
  "rev_parse path = Call [Str ''git'', Str ''rev-parse'', Str ''HEAD''] (Some path) False"

text \<open>
  The fan-out with the threads finishing in spawn order, told as a sequential run:
  \<open>run_jobs\<close> runs the jobs one after the other and gives what each did (\<open>None\<close> for
  one that did not finish) with the final world; \<open>gather\<close> is the second loop of
  \<^verbatim>\<open>async_map\<close> over these results; \<open>finished_from k\<close> numbers the finished
  ones from \<open>k\<close> on.
\<close>

fun run_jobs :: "('a, 'b, 's) job \<Rightarrow> 'a list \<Rightarrow> 's \<Rightarrow> (error + 'b outcome) option list \<times> 's" where
  "run_jobs fn [] s = ([], s)"
| "run_jobs fn (x # xs) s =
     (case fn x s of (r, s') \<Rightarrow> (case run_jobs fn xs s' of (rs, s'') \<Rightarrow> (r # rs, s'')))"

fun gather :: "(error + 'b outcome) option list \<Rightarrow> (error + 'b list) option" where
  "gather [] = Some (Inr [])"
| "gather (r # rs) =
     (case r of
        None \<Rightarrow> None
      | Some (Inl e) \<Rightarrow> Some (Inl e)
      | Some (Inr OMIT) \<Rightarrow> gather rs
      | Some (Inr (Val v)) \<Rightarrow>
          (case gather rs of
             None \<Rightarrow> None
           | Some (Inl e) \<Rightarrow> Some (Inl e)
           | Some (Inr vs) \<Rightarrow> Some (Inr (v # vs))))"

fun finished_from :: "nat \<Rightarrow> (error + 'b outcome) option list \<Rightarrow> (nat \<times> (error + 'b outcome)) list" where
  "finished_from k [] = []"
| "finished_from k (None # rs) = finished_from (Suc k) rs"
| "finished_from k (Some r # rs) = (k, r) # finished_from (Suc k) rs"

text \<open>The events that only some computation appends: all of them are in \<open>S\<close>.\<close>

definition appends :: "event set \<Rightarrow> 'a io \<Rightarrow> bool" where
  "appends S m = (\<forall>log. \<exists>new. snd (m log) = log @ new \<and> set new \<subseteq> S)"

text \<open>A \<^verbatim>\<open>docker push\<close> call, and the \<^verbatim>\<open>docker login\<close> call of \<^verbatim>\<open>push\<close>.\<close>

fun is_push :: "event \<Rightarrow> bool" where
  "is_push (Call (Str d # Str p # rest) cwd verbose) = (d = ''docker'' \<and> p = ''push'')"
| "is_push ev = False"

definition login_call :: "config \<Rightarrow> event" where
  "login_call cfg =
     Call [Str ''docker'', Str ''login'', Str ''-u'', opt_arg (user cfg),
           Str ''-p'', Secret (password cfg), Str (registry cfg)] None False"

section \<open>The scanner's rules, on directory names\<close>

text \<open>
  A directory of the workspace is named by the list of entry names that leads to it from
  the work directory; its path is the work directory joined with these names in turn.
\<close>

definition path_of :: "string \<Rightarrow> string list \<Rightarrow> string" where
  "path_of wd d = foldl os_path_join wd d"

fun entries_at :: "(string \<times> node) list \<Rightarrow> string list \<Rightarrow> (string \<times> node) list option" where
  "entries_at es [] = Some es"
| "entries_at es (n # d) =
     (case map_of es n of Some (Dir sub) \<Rightarrow> entries_at sub d | _ \<Rightarrow> None)"

text \<open>The directory \<open>d\<close> exists and has an entry called \<open>m\<close>.\<close>

definition marked :: "string \<Rightarrow> (string \<times> node) list \<Rightarrow> string list \<Rightarrow> bool" where
  "marked m es d = (case entries_at es d of Some entries \<Rightarrow> has_name m entries | None \<Rightarrow> False)"

text \<open>
  The directory is a prototype or lies under one; and the nearest directory with a
  service marker among the directory and its ancestors, the longest such prefix.
\<close>

definition under_prototype :: "(string \<times> node) list \<Rightarrow> string list \<Rightarrow> bool" where
  "under_prototype es d = (\<exists>p \<in> set (prefixes d). marked ''proto.yaml'' es p)"

definition nearest_service :: "(string \<times> node) list \<Rightarrow> string list \<Rightarrow> string list option" where
  "nearest_service es d =
     (case filter (marked ''service.yaml'' es) (rev (prefixes d)) of
        [] \<Rightarrow> None
      | p # ps \<Rightarrow> Some p)"

text \<open>No directory lists a name twice, as \<^verbatim>\<open>os.listdir\<close> guarantees.\<close>

fun wf_node :: "node \<Rightarrow> bool" and wf_entries :: "(string \<times> node) list \<Rightarrow> bool" where
  "wf_node File = True"
| "wf_node (Dir es) = wf_entries es"
| "wf_entries [] = True"
| "wf_entries ((n, t) # es) = (n \<notin> set (map fst es) \<and> wf_node t \<and> wf_entries es)"

text \<open>
  The spec's rules 1 to 4 as a function on names: the prototypes found, and for each
  service found its directory with the directories of its container contexts. A
  prototype ends the descent; a service marker makes the directory the current service
  for itself and its children; a container definition is added to the current service,
  if there is one; every subdirectory that is not excluded is visited with the current
  service.
\<close>

type_synonym placement = "string list list \<times> (string list \<times> string list list) list"

definition place_here ::
  "string list \<Rightarrow> nat option \<Rightarrow> (string \<times> node) list \<Rightarrow> placement \<Rightarrow> nat option \<times> placement" where
  "place_here d current entries = (\<lambda>(ps, ss).
     let ss1 = (if has_name ''service.yaml'' entries then ss @ [(d, [])] else ss);
         current1 = (if has_name ''service.yaml'' entries then Some (length ss) else current);
         ss2 = (if has_name ''Dockerfile'' entries
                then (case current1 of
                        None \<Rightarrow> ss1
                      | Some i \<Rightarrow> ss1[i := (fst (ss1 ! i), snd (ss1 ! i) @ [d])])
                else ss1)
     in (current1, (ps, ss2)))"

fun place :: "string list \<Rightarrow> nat option \<Rightarrow> (string \<times> node) list \<Rightarrow> placement \<Rightarrow> placement"
and place_each :: "string list \<Rightarrow> nat option \<Rightarrow> (string \<times> node) list \<Rightarrow> placement \<Rightarrow> placement" where
  "place d current entries pl =
     (if has_name ''proto.yaml'' entries then (fst pl @ [d], snd pl)
      else place_each d (fst (place_here d current entries pl)) entries
             (snd (place_here d current entries pl)))"
| "place_each d current [] pl = pl"
| "place_each d current ((n, File) # rest) pl = place_each d current rest pl"
| "place_each d current ((n, Dir sub) # rest) pl =
     (if n \<in> set EXCLUDED then place_each d current rest pl
      else place_each d current rest (place (d @ [n]) current sub pl))"

definition placement_of :: "(string \<times> node) list \<Rightarrow> placement" where
  "placement_of es = place [] None es ([], [])"

text \<open>What the scanner keeps of a prototype and of a service with these directories.\<close>

definition prototype_at :: "config \<Rightarrow> string list \<Rightarrow> string" where
  "prototype_at cfg d = os_path_join (path_of (workdir cfg) d) ''proto.yaml''"

definition descriptor_at :: "config \<Rightarrow> string list \<Rightarrow> string" where
  "descriptor_at cfg d = os_path_join (path_of (workdir cfg) d) ''service.yaml''"

definition containers_at :: "env \<Rightarrow> config \<Rightarrow> string list \<Rightarrow> string list list \<Rightarrow> string list" where
  "containers_at E cfg q ds =
     map (\<lambda>d. relpath E (os_path_join (path_of (workdir cfg) d) ''Dockerfile'')
                 (service_root E (descriptor_at cfg q))) ds"

definition service_at :: "env \<Rightarrow> config \<Rightarrow> string list \<times> string list list \<Rightarrow> string \<times> string \<times> string list" where
  "service_at E cfg = (\<lambda>(q, ds).
     (descriptor_at cfg q, service_root E (descriptor_at cfg q), containers_at E cfg q ds))"

definition service_view :: "service \<Rightarrow> string \<times> string \<times> string list" where
  "service_view s = (svc_descriptor s, svc_root s, svc_containers s)"

text \<open>The state of the scanner shows the placement \<open>pl\<close>.\<close>

definition mirrors :: "env \<Rightarrow> config \<Rightarrow> scan_state \<Rightarrow> placement \<Rightarrow> bool" where
  "mirrors E cfg st pl =
     (prototypes st = map (prototype_at cfg) (fst pl) \<and>
      map service_view (services st) = map (service_at E cfg) (snd pl))"

text \<open>
  The directory \<open>d\<close> holds a container definition, is neither a prototype nor under
  one, and \<open>q\<close> is its nearest directory with a service marker.
\<close>

definition attributed :: "(string \<times> node) list \<Rightarrow> string list \<Rightarrow> string list \<Rightarrow> bool" where
  "attributed es q d =
     (marked ''Dockerfile'' es d \<and> \<not> under_prototype es d \<and> nearest_service es d = Some q)"

text \<open>Every container directory of every service of a placement is attributed to it.\<close>

definition settled :: "(string \<times> node) list \<Rightarrow> (string list \<times> string list list) list \<Rightarrow> bool" where
  "settled es ss = (\<forall>s \<in> set ss. \<forall>d \<in> set (snd s). attributed es (fst s) d)"

text \<open>The current service \<open>current\<close>, an index into \<open>ss\<close>, stands for the directory \<open>owner\<close>.\<close>

definition owner_ok ::
  "nat option \<Rightarrow> (string list \<times> string list list) list \<Rightarrow> string list option \<Rightarrow> bool" where
  "owner_ok current ss owner =
     (case current of
        None \<Rightarrow> owner = None
      | Some i \<Rightarrow> i < length ss \<and> owner = Some (fst (ss ! i)))"

text \<open>
  From \<open>ss\<close> to \<open>ss'\<close> the services found stay in place, those added lie at or below
  one of the directories \<open>D\<close>, no directory is found twice, and all containers are
  attributed.
\<close>

definition grows ::
  "(string \<times> node) list \<Rightarrow> string list set \<Rightarrow> (string list \<times> string list list) list \<Rightarrow>
   (string list \<times> string list list) list \<Rightarrow> bool" where
  "grows es D ss ss' =
     (settled es ss' \<and> distinct (map fst ss') \<and>
      (\<exists>news. map fst ss' = map fst ss @ news \<and> (\<forall>q \<in> set news. \<exists>r \<in> D. prefix r q)))"

section \<open>Computations in the world\<close>

lemma bind_io_apply:
  "bind_io m f log =
     (case m log of
        (None, log') \<Rightarrow> (None, log')
      | (Some (Inl e), log') \<Rightarrow> (Some (Inl e), log')
      | (Some (Inr x), log') \<Rightarrow> f x log')"
  by (simp add: bind_io_def)

lemma bind_io_returns:
  "m log = (Some (Inr x), log') \<Longrightarrow> bind_io m f log = f x log'"
  by (simp add: bind_io_def)

lemma bind_io_raises:
  "m log = (Some (Inl e), log') \<Longrightarrow> bind_io m f log = (Some (Inl e), log')"
  by (simp add: bind_io_def)

lemma bind_io_diverges:
  "m log = (None, log') \<Longrightarrow> bind_io m f log = (None, log')"
  by (simp add: bind_io_def)

lemma return_io_apply: "return_io x log = (Some (Inr x), log)"
  by (simp add: return_io_def)

lemma raise_io_apply: "raise_io e log = (Some (Inl e), log)"
  by (simp add: raise_io_def)

lemma lift_e_apply: "lift_e m log = (Some m, log)"
  by (simp add: lift_e_def)

lemma call_apply:
  "call E argv cwd verbose log =
     (Some (Inr (cmd_output E (log @ [Call argv cwd verbose]))), log @ [Call argv cwd verbose])"
  by (simp add: call_def Let_def)

lemma get_apply:
  "get E req log = (Some (http_get E (log @ [Get req])), log @ [Get req])"
  by (simp add: get_def Let_def)

lemma write_file_apply: "write_file path txt log = (Some (Inr ()), log @ [Write path txt])"
  by (simp add: write_file_def)

lemma bind_e_Inr: "bind_e (Inr x) f = f x"
  by (simp add: bind_e_def)

lemma bind_e_Inl: "bind_e (Inl e) f = Inl e"
  by (simp add: bind_e_def)

lemmas io_simps =
  bind_io_apply return_io_apply raise_io_apply lift_e_apply call_apply get_apply
  write_file_apply bind_e_Inr bind_e_Inl

section \<open>Properties of the fan-out primitive\<close>

lemma run_order_distinct: "distinct (run_order n sched)"
  by (auto simp: run_order_def)

lemma run_order_set: "set (run_order n sched) = {..<n}"
  by (auto simp: run_order_def)

lemma run_order_spawn: "run_order n [] = [0..<n]"
  by (simp add: run_order_def)

lemma fold_run_thread_pure:
  "fold (run_thread (pure_job f) items) is (fin, s) =
     (fin @ map (\<lambda>i. (i, Inr (f (items ! i)))) is, s)"
  by (induction "is" arbitrary: fin) (simp_all add: run_thread_def pure_job_def)

lemma map_of_finished:
  "i \<in> set is \<Longrightarrow> map_of (map (\<lambda>i. (i, g i)) is) i = Some (g i)"
  by (induction "is") auto

lemma wait_threads_all:
  "(\<And>t. t \<in> set ts \<Longrightarrow> res t = Some (Inr (g t))) \<Longrightarrow>
   wait_threads res ts = Some (Inr (kept (map g ts)))"
proof (induction ts)
  case Nil
  then show ?case by simp
next
  case (Cons t ts)
  have t: "res t = Some (Inr (g t))" using Cons.prems by simp
  have rest: "wait_threads res ts = Some (Inr (kept (map g ts)))"
    using Cons by simp
  show ?case using t rest by (cases "g t") simp_all
qed

lemma kept_length: "length (kept rs) = length rs - length (filter (\<lambda>r. r = OMIT) rs)"
proof (induction rs rule: kept.induct)
  case (3 v rs)
  have "length (filter (\<lambda>r. r = OMIT) rs) \<le> length rs" by simp
  with 3 show ?case by (simp add: Suc_diff_le)
qed simp_all

lemma map_nth_upt: "map (\<lambda>i. f (items ! i)) [0..<length items] = map f items"
  by (simp add: map_nth map_equality_iff)

text \<open>
  C3. For every input sequence and every per-item function, whatever the order in
  which the spawned threads finish, the fan-out returns the results of the function on
  the items in input order with the skip marker removed, and leaves out exactly as
  many results as there are items mapped to the skip marker.
\<close>

theorem async_map_order:
  "async_map (pure_job f) items sched s = (Some (Inr (kept (map f items))), s) \<and>
   length (kept (map f items)) =
     length items - length (filter (\<lambda>x. f x = OMIT) items)"
proof
  let ?n = "length items"
  let ?g = "\<lambda>i. f (items ! i)"
  let ?fin = "map (\<lambda>i. (i, (Inr (?g i) :: error + _))) (run_order ?n sched)"
  have run: "fold (run_thread (pure_job f) items) (run_order ?n sched) ([], s) = (?fin, s)"
    by (simp add: fold_run_thread_pure)
  have slot: "map_of ?fin t = Some (Inr (?g t))" if "t \<in> set [0..<?n]" for t
  proof -
    from that have "t \<in> set (run_order ?n sched)" by (simp add: run_order_set)
    then show ?thesis by (rule map_of_finished)
  qed
  have "wait_threads (map_of ?fin) [0..<?n] = Some (Inr (kept (map ?g [0..<?n])))"
    using slot by (rule wait_threads_all)
  then have "wait_threads (map_of ?fin) [0..<?n] = Some (Inr (kept (map f items)))"
    by (simp only: map_nth_upt)
  then show "async_map (pure_job f) items sched s = (Some (Inr (kept (map f items))), s)"
    by (simp add: async_map_def run)
next
  have "filter (\<lambda>r. r = OMIT) (map f items) = map f (filter (\<lambda>x. f x = OMIT) items)"
    by (simp add: filter_map comp_def)
  then show "length (kept (map f items)) =
     length items - length (filter (\<lambda>x. f x = OMIT) items)"
    by (simp add: kept_length)
qed

section \<open>Build selection\<close>

text \<open>
  C4. Whenever \<open>pushed\<close> answers (published or not) and \<open>baked\<close>, asked after it,
  gives the output \<open>built\<close>, \<open>is_raw\<close> returns a value that is true if and only if
  the image is not published or the output is not empty (the image is built locally);
  so it is false exactly for an image that is published and not built.
\<close>

theorem is_raw_selection:
  assumes "pushed E cfg name version log = (Some (Inr p), log1)"
      and "baked E cfg name version log1 = (Some (Inr built), log2)"
  shows "\<exists>v log'. is_raw E cfg name version log = (Some (Inr v), log') \<and>
           truthy v = (\<not> p \<or> built \<noteq> [])"
  using assms by (cases p) (simp_all add: is_raw_def bind_io_apply return_io_apply)

text \<open>A published image without a local build is not selected.\<close>

lemmas eval_simps =
  pushed_def manifest_request_def manifest_url_def demo_env_def demo_config_def io_simps
  pushed_result_def json_of_def has_both_def has_errors_def first_code_def reply_def baked_def

lemma full_registry_pushed:
  "pushed (demo_env full_registry no_output) demo_config ''app'' ''1'' [] =
     (Some (Inr True), [Get (manifest_request demo_config ''app'' ''1'')])"
  by (simp add: eval_simps full_registry_def)

lemma full_registry_baked:
  "baked (demo_env full_registry no_output) demo_config ''app'' ''1''
     [Get (manifest_request demo_config ''app'' ''1'')] =
   (Some (Inr []),
    [Get (manifest_request demo_config ''app'' ''1''),
     Call [Str ''docker'', Str ''images'', Str ''-q'', Str ''reg.io/acme/app:1''] None False])"
  by (simp add: eval_simps no_output_def)

theorem is_raw_selection_witness:
  "\<exists>v log'. is_raw (demo_env full_registry no_output) demo_config ''app'' ''1'' [] =
              (Some (Inr v), log') \<and> \<not> truthy v"
  using is_raw_selection [OF full_registry_pushed full_registry_baked] by simp

section \<open>Published or not: the decision on the registry's answer\<close>

lemma key_of_map_of: "map_of kvs k = Some v \<Longrightarrow> k \<in> set (map fst kvs)"
  by (metis map_of_eq_None_iff option.distinct(1) set_map)

lemma pushed_result_manifest_unknown:
  assumes "json_body r = Some (JObj kvs)"
      and "map_of kvs ''errors'' = Some (JArr (JObj e # es))"
      and "map_of e ''code'' = Some (JStr ''MANIFEST_UNKNOWN'')"
      and "\<not> (''signatures'' \<in> set (map fst kvs) \<and> ''fsLayers'' \<in> set (map fst kvs))"
  shows "pushed_result r = Inr False"
proof -
  have both: "has_both (JObj kvs) = Inr False"
    using assms(4) by (auto simp: has_both_def bind_e_def)
  have key: "''errors'' \<in> set (map fst kvs)"
    using assms(2) by (rule key_of_map_of)
  have errs: "has_errors (JObj kvs) = Inr True"
    using key assms(2) by (simp add: has_errors_def bind_e_def)
  have code: "first_code (JObj kvs) = Inr (JStr ''MANIFEST_UNKNOWN'')"
    using assms(2,3) by (simp add: first_code_def bind_e_def)
  show ?thesis
    using assms(1) both errs code by (simp add: pushed_result_def json_of_def bind_e_def)
qed

text \<open>
  C6, as the claim states it, fails: a \<^verbatim>\<open>404\<close> whose body is the empty JSON
  object has neither the manifest sections nor an error list, and \<open>pushed\<close> raises
  \<^verbatim>\<open>CLIError\<close> with the content of the response.
\<close>

theorem pushed_404_counterexample:
  "status_code (reply 404 [] (JObj [])) = 404 \<and>
   pushed (demo_env bare_registry no_output) demo_config ''app'' ''1'' [] =
     (Some (Inl (CLIError ''body'')), [Get (manifest_request demo_config ''app'' ''1'')])"
  by (simp add: eval_simps bare_registry_def)

text \<open>
  C6, amended. A manifest request that returns \<^verbatim>\<open>404\<close> with a JSON object whose
  \<^verbatim>\<open>errors\<close> entry is a list starting with an object of code
  \<^verbatim>\<open>MANIFEST_UNKNOWN\<close>, and which does not hold both a \<^verbatim>\<open>signatures\<close> and
  an \<^verbatim>\<open>fsLayers\<close> key, makes \<open>pushed\<close> return false without raising: when it is
  the answer to the first request, and when it is the answer to the authorised request
  that ends the handshake after a \<^verbatim>\<open>401\<close>.
\<close>

theorem pushed_404_manifest_unknown:
  assumes "status_code r = 404"
      and "json_body r = Some (JObj kvs)"
      and "map_of kvs ''errors'' = Some (JArr (JObj e # es))"
      and "map_of e ''code'' = Some (JStr ''MANIFEST_UNKNOWN'')"
      and "\<not> (''signatures'' \<in> set (map fst kvs) \<and> ''fsLayers'' \<in> set (map fst kvs))"
  shows "(http_get E (log @ [Get (manifest_request cfg name version)]) = Inr r \<longrightarrow>
            pushed E cfg name version log =
              (Some (Inr False), log @ [Get (manifest_request cfg name version)])) \<and>
         (\<forall>r0 log2.
            http_get E (log @ [Get (manifest_request cfg name version)]) = Inr r0 \<and>
            status_code r0 = 401 \<and>
            authenticate E cfg (manifest_url cfg name version) r0
              (log @ [Get (manifest_request cfg name version)]) = (Some (Inr r), log2) \<longrightarrow>
            pushed E cfg name version log = (Some (Inr False), log2))"
proof -
  have res: "pushed_result r = Inr False"
    using assms(2-5) by (rule pushed_result_manifest_unknown)
  show ?thesis
    using res assms(1) by (simp add: pushed_def io_simps)
qed

lemma private_registry_handshake:
  "\<exists>log2. authenticate (demo_env private_registry no_output) demo_config
      (manifest_url demo_config ''app'' ''1'')
      (reply 401 [(''www-authenticate'', challenge)] JNull)
      ([] @ [Get (manifest_request demo_config ''app'' ''1'')]) =
    (Some (Inr (reply 404 [] unknown_body)), log2)"
  by (simp add: authenticate_def eval_simps private_registry_def strip_bearer_def
      token_url_def lookup_key_def format_s_def header_def lower_def lower_char_def
      challenge_def quoted_def parse_http_list_def py_strip_def is_space_def unquote_def)

theorem pushed_404_manifest_unknown_witness:
  "pushed (demo_env open_registry no_output) demo_config ''app'' ''1'' [] =
     (Some (Inr False), [Get (manifest_request demo_config ''app'' ''1'')]) \<and>
   (\<exists>log2. pushed (demo_env private_registry no_output) demo_config ''app'' ''1'' [] =
     (Some (Inr False), log2))"
proof
  let ?r = "reply 404 [] unknown_body"
  let ?kvs = "[(''errors'', JArr [JObj [(''code'', JStr ''MANIFEST_UNKNOWN'')]])]"
  let ?e = "[(''code'', JStr ''MANIFEST_UNKNOWN'')]"
  have s: "status_code ?r = 404" by (simp add: reply_def)
  have b: "json_body ?r = Some (JObj ?kvs)" by (simp add: reply_def unknown_body_def)
  have e: "map_of ?kvs ''errors'' = Some (JArr (JObj ?e # []))" by simp
  have c: "map_of ?e ''code'' = Some (JStr ''MANIFEST_UNKNOWN'')" by simp
  have n: "\<not> (''signatures'' \<in> set (map fst ?kvs) \<and> ''fsLayers'' \<in> set (map fst ?kvs))" by simp
  note inst = pushed_404_manifest_unknown [OF s b e c n]
  have first: "http_get (demo_env open_registry no_output)
      ([] @ [Get (manifest_request demo_config ''app'' ''1'')]) = Inr ?r"
    by (simp add: demo_env_def open_registry_def)
  from inst [of "demo_env open_registry no_output" "[]" demo_config "''app''" "''1''"] first
  show "pushed (demo_env open_registry no_output) demo_config ''app'' ''1'' [] =
     (Some (Inr False), [Get (manifest_request demo_config ''app'' ''1'')])"
    by simp
next
  let ?r = "reply 404 [] unknown_body"
  let ?unauth = "reply 401 [(''www-authenticate'', challenge)] JNull"
  let ?kvs = "[(''errors'', JArr [JObj [(''code'', JStr ''MANIFEST_UNKNOWN'')]])]"
  let ?e = "[(''code'', JStr ''MANIFEST_UNKNOWN'')]"
  let ?E = "demo_env private_registry no_output"
  have s: "status_code ?r = 404" by (simp add: reply_def)
  have b: "json_body ?r = Some (JObj ?kvs)" by (simp add: reply_def unknown_body_def)
  have e: "map_of ?kvs ''errors'' = Some (JArr (JObj ?e # []))" by simp
  have c: "map_of ?e ''code'' = Some (JStr ''MANIFEST_UNKNOWN'')" by simp
  have n: "\<not> (''signatures'' \<in> set (map fst ?kvs) \<and> ''fsLayers'' \<in> set (map fst ?kvs))" by simp
  note inst = pushed_404_manifest_unknown [OF s b e c n, of ?E "[]" demo_config "''app''" "''1''"]
  have first: "http_get ?E ([] @ [Get (manifest_request demo_config ''app'' ''1'')]) = Inr ?unauth"
    by (simp add: demo_env_def private_registry_def manifest_request_def manifest_url_def
        demo_config_def)
  have st: "status_code ?unauth = 401" by (simp add: reply_def)
  obtain log2 where hs: "authenticate ?E demo_config (manifest_url demo_config ''app'' ''1'') ?unauth
      ([] @ [Get (manifest_request demo_config ''app'' ''1'')]) = (Some (Inr ?r), log2)"
    using private_registry_handshake by blast
  from inst first st hs
  have "pushed ?E demo_config ''app'' ''1'' [] = (Some (Inr False), log2)" by blast
  then show "\<exists>log2. pushed ?E demo_config ''app'' ''1'' [] = (Some (Inr False), log2)" ..
qed

section \<open>Credential redaction\<close>


lemma elide_inject_token:
  "t \<noteq> [] \<Longrightarrow>
   elide marker (inject_token url (Some t)) =
     concat (fst (plain_parts url)) @ marker @ concat (snd (plain_parts url))"
  by (simp add: inject_token_def plain_parts_def split: option.splits)

text \<open>
  C8, as the claim states it, fails: the rendering hides the secret segment only, so a
  token that also occurs in the text of the URL is still in the status line.
\<close>

theorem inject_token_counterexample:
  "sublist ''tok''
     (status_line ''<ELIDED>''
        [Str ''git'', Str ''pull'', inject_token ''https://github.com/acme/tok'' (Some ''tok'')])"
proof -
  have "status_line ''<ELIDED>''
        [Str ''git'', Str ''pull'', inject_token ''https://github.com/acme/tok'' (Some ''tok'')]
      = ''git pull https://<ELIDED>@github.com/acme/'' @ ''tok'' @ []"
    by (simp add: status_line_def inject_token_def)
  then show ?thesis
    unfolding sublist_def by blast
qed

lemma sublist_set: "sublist xs ys \<Longrightarrow> set xs \<subseteq> set ys"
  by (auto simp: sublist_def)

lemma find_sep_parts: "find_sep sep s = Some (a, b) \<Longrightarrow> set a \<subseteq> set s \<and> set b \<subseteq> set s"
proof (induction s arbitrary: a b)
  case Nil
  then show ?case by simp
next
  case (Cons c cs)
  show ?case
  proof (cases "prefix sep (c # cs)")
    case True
    then have "a = []" "b = drop (length sep) (c # cs)" using Cons.prems by simp_all
    then show ?thesis by (auto dest: in_set_dropD)
  next
    case False
    then obtain a' where "find_sep sep cs = Some (a', b)" "a = c # a'"
      using Cons.prems by (auto split: option.splits)
    then show ?thesis using Cons.IH [of a' b] by auto
  qed
qed

lemma find_sep_scheme:
  "find_sep ''://'' s = Some (a, b) \<Longrightarrow> set ''://'' \<subseteq> set s"
proof (induction s arbitrary: a)
  case Nil
  then show ?case by simp
next
  case (Cons c cs)
  show ?case
  proof (cases "prefix ''://'' (c # cs)")
    case True
    then show ?thesis by (auto simp: prefix_def)
  next
    case False
    then obtain a' where "find_sep ''://'' cs = Some (a', b)"
      using Cons.prems by (auto split: option.splits)
    then show ?thesis using Cons.IH [of a'] by auto
  qed
qed

lemma plain_parts_chars:
  "set (concat (fst (plain_parts url))) \<union> set (concat (snd (plain_parts url)))
     \<subseteq> set url \<union> {CHR ''@''}"
proof (cases "find_sep ''://'' url")
  case None
  then show ?thesis by (simp add: plain_parts_def)
next
  case (Some ab)
  obtain a b where ab: "ab = (a, b)" by (cases ab)
  have "set a \<subseteq> set url" "set b \<subseteq> set url"
    using find_sep_parts [of "''://''" url a b] Some ab by simp_all
  moreover have "set ''://'' \<subseteq> set url"
    using find_sep_scheme [of url a b] Some ab by simp
  ultimately show ?thesis using Some ab by (auto simp: plain_parts_def)
qed

text \<open>
  C8, amended. For every clone URL and every non-empty credential, \<open>inject_token\<close>
  gives an \<^verbatim>\<open>Elidable\<close> whose only part holding the credential is a
  \<^verbatim>\<open>Secret\<close>, between plain parts that are a function of the URL alone; its
  rendering, and every status line that contains it, is the rendering of those plain
  parts with the fixed marker in the place of the credential, and so is the same for
  every other non-empty credential; the rendering of the URL does not contain the
  credential if the credential has a character that is neither in the URL, nor in the
  marker, nor the at sign; the text handed to the subprocess has the credential in the
  place of the marker.
\<close>

theorem inject_token_redacted:
  assumes "t \<noteq> []"
  shows "inject_token url (Some t) =
           Elidable (map Str (fst (plain_parts url)) @ [Secret (Some t)]
                     @ map Str (snd (plain_parts url))) \<and>
         elide marker (inject_token url (Some t)) =
           concat (fst (plain_parts url)) @ marker @ concat (snd (plain_parts url)) \<and>
         status_line marker (before @ [inject_token url (Some t)] @ after) =
           status_line marker
             (before @ [Str (concat (fst (plain_parts url)) @ marker
                             @ concat (snd (plain_parts url)))] @ after) \<and>
         (\<forall>t'. t' \<noteq> [] \<longrightarrow>
            status_line marker (before @ [inject_token url (Some t')] @ after) =
            status_line marker (before @ [inject_token url (Some t)] @ after)) \<and>
         ((\<exists>c \<in> set t. c \<notin> set url \<and> c \<notin> set marker \<and> c \<noteq> CHR ''@'') \<longrightarrow>
            \<not> sublist t (elide marker (inject_token url (Some t)))) \<and>
         reveal (inject_token url (Some t)) =
           concat (fst (plain_parts url)) @ t @ concat (snd (plain_parts url))"
proof -
  have shape: "inject_token url (Some t) =
           Elidable (map Str (fst (plain_parts url)) @ [Secret (Some t)]
                     @ map Str (snd (plain_parts url)))"
    using assms by (simp add: inject_token_def plain_parts_def split: option.splits)
  have rendering: "elide marker (inject_token url (Some t')) =
           concat (fst (plain_parts url)) @ marker @ concat (snd (plain_parts url))"
    if "t' \<noteq> []" for t'
    using that by (rule elide_inject_token)
  have line: "status_line marker (before @ [inject_token url (Some t')] @ after) =
           status_line marker
             (before @ [Str (concat (fst (plain_parts url)) @ marker
                             @ concat (snd (plain_parts url)))] @ after)"
    if "t' \<noteq> []" for t'
    using that by (simp add: status_line_def rendering)
  have same: "status_line marker (before @ [inject_token url (Some t')] @ after) =
            status_line marker (before @ [inject_token url (Some t)] @ after)"
    if "t' \<noteq> []" for t'
    by (simp only: line [OF that] line [OF assms])
  have absent: "\<not> sublist t (elide marker (inject_token url (Some t)))"
    if "\<exists>c \<in> set t. c \<notin> set url \<and> c \<notin> set marker \<and> c \<noteq> CHR ''@''"
  proof
    assume "sublist t (elide marker (inject_token url (Some t)))"
    then have "set t \<subseteq> set (concat (fst (plain_parts url)) @ marker @ concat (snd (plain_parts url)))"
      using rendering [OF assms] sublist_set by metis
    then have "set t \<subseteq> (set (concat (fst (plain_parts url))) \<union>
        set (concat (snd (plain_parts url)))) \<union> set marker"
      by (simp only: set_append) blast
    then have "set t \<subseteq> (set url \<union> {CHR ''@''}) \<union> set marker"
      using plain_parts_chars [of url] by blast
    then show False using that by blast
  qed
  have raw: "reveal (inject_token url (Some t)) =
           concat (fst (plain_parts url)) @ t @ concat (snd (plain_parts url))"
    using assms by (simp add: inject_token_def plain_parts_def split: option.splits)
  from shape rendering [OF assms] line [OF assms] same absent raw show ?thesis by blast
qed

theorem inject_token_redacted_witness:
  "status_line ''<ELIDED>''
     ([Str ''git'', Str ''pull''] @ [inject_token ''https://github.com/acme/app.git'' (Some ''s3cr3t'')] @ []) =
   ''git pull https://<ELIDED>@github.com/acme/app.git'' \<and>
   \<not> sublist ''s3cr3t''
      (elide ''<ELIDED>'' (inject_token ''https://github.com/acme/app.git'' (Some ''s3cr3t''))) \<and>
   reveal (inject_token ''https://github.com/acme/app.git'' (Some ''s3cr3t'')) =
   ''https://s3cr3t@github.com/acme/app.git''"
proof -
  have ne: "''s3cr3t'' \<noteq> []" by simp
  have odd: "\<exists>c \<in> set ''s3cr3t''. c \<notin> set ''https://github.com/acme/app.git'' \<and>
      c \<notin> set ''<ELIDED>'' \<and> c \<noteq> CHR ''@''"
    by simp
  note inst = inject_token_redacted [OF ne, of "''https://github.com/acme/app.git''" "''<ELIDED>''"
        "[Str ''git'', Str ''pull'']" "[]"]
  from inst odd
  have absent: "\<not> sublist ''s3cr3t''
      (elide ''<ELIDED>'' (inject_token ''https://github.com/acme/app.git'' (Some ''s3cr3t'')))"
    by blast
  from inst
  have line: "status_line ''<ELIDED>''
     ([Str ''git'', Str ''pull''] @ [inject_token ''https://github.com/acme/app.git'' (Some ''s3cr3t'')] @ []) =
     ''git pull https://<ELIDED>@github.com/acme/app.git''"
    by (simp add: plain_parts_def status_line_def)
  from inst
  have raw: "reveal (inject_token ''https://github.com/acme/app.git'' (Some ''s3cr3t'')) =
     ''https://s3cr3t@github.com/acme/app.git''"
    by (simp add: plain_parts_def)
  from line absent raw show ?thesis by (intro conjI)
qed

section \<open>Paginated listing\<close>

lemmas gh_eval =
  demo_env_def demo_config_def reply_def gh_request_def page_request_def gh_headers_def
  next_page_def ok_def header_def lower_def lower_char_def

lemmas link_eval =
  parse_links_def parse_link_def strip_chars_def replace_chars_def quoted_def next_and_last_def

lemma header_first:
  "map_of (map (\<lambda>kv. (lower (fst kv), snd kv)) hs) k =
     (case filter (\<lambda>kv. lower (fst kv) = k) hs of [] \<Rightarrow> None | kv # kvs \<Rightarrow> Some (snd kv))"
  by (induction hs) auto

lemma lower_Link: "lower ''Link'' = ''link''"
  by (simp add: lower_def lower_char_def)

lemma header_Link: "header r ''Link'' = link_header r"
  by (simp add: header_def link_header_def header_first lower_Link)

lemma find_next_append:
  assumes "\<forall>l \<in> set before. \<exists>rel. map_of l ''rel'' = Some rel \<and> rel \<noteq> ''next''"
  shows "find_next (before @ links) = find_next links"
  using assms by (induction before) auto

lemma find_next_found: "next_link_is links url \<Longrightarrow> find_next links = Inr (Some url)"
  unfolding next_link_is_def
proof (elim exE conjE)
  fix before link after
  assume "links = before @ link # after"
    and "\<forall>l \<in> set before. \<exists>rel. map_of l ''rel'' = Some rel \<and> rel \<noteq> ''next''"
    and "map_of link ''rel'' = Some ''next''" and "map_of link ''url'' = Some url"
  then show "find_next links = Inr (Some url)"
    by (simp add: find_next_append)
qed

lemma find_next_absent: "no_next_link links \<Longrightarrow> find_next links = Inr None"
  using find_next_append [of links "[]"] by (simp add: no_next_link_def)

lemma next_page_found: "carries_next E r url \<Longrightarrow> next_page E r = Inr (Some url)"
  by (auto simp: carries_next_def next_page_def header_Link find_next_found)

lemma next_page_absent: "carries_no_next E r \<Longrightarrow> next_page E r = Inr None"
  by (auto simp: carries_no_next_def next_page_def header_Link find_next_absent
      split: option.splits)

lemma gh_request_api_get:
  "gh_request cfg api tolerated = api_get cfg (''https://api.github.com/'' @ api) tolerated"
  by (cases "token cfg") (simp_all add: gh_request_def api_get_def gh_headers_def)

lemma page_request_api_get: "page_request cfg url = api_get cfg url None"
  by (cases "token cfg") (simp_all add: page_request_def api_get_def gh_headers_def)

lemma next_link_first:
  "map_of link ''rel'' = Some ''next'' \<Longrightarrow> map_of link ''url'' = Some url \<Longrightarrow>
   next_link_is (link # after) url"
  unfolding next_link_is_def
  by (rule exI [of _ "[]"], rule exI [of _ link], rule exI [of _ after]) simp

text \<open>
  C7. When the first response has a status below 400 and the responses carry, in their
  link headers as the library parses them, first links of relation \<^verbatim>\<open>next\<close> to
  \<open>A\<close>, \<open>B\<close>, \<open>C\<close> and then none, \<open>gh\<close> (with fuel for at least three further
  pages) issues exactly four GET requests, the first for the API path under
  \<^verbatim>\<open>https://api.github.com/\<close> and one for each link in turn, stops at the
  response without a next link, and returns the four JSON lists concatenated in request
  order.
\<close>

theorem gh_follows_next_links:
  assumes r0: "http_get E (log @ [Get (api_get cfg (''https://api.github.com/'' @ api) expected)]) = Inr r0"
      and r1: "http_get E (log @ [Get (api_get cfg (''https://api.github.com/'' @ api) expected),
                 Get (api_get cfg A None)]) = Inr r1"
      and r2: "http_get E (log @ [Get (api_get cfg (''https://api.github.com/'' @ api) expected),
                 Get (api_get cfg A None), Get (api_get cfg B None)]) = Inr r2"
      and r3: "http_get E (log @ [Get (api_get cfg (''https://api.github.com/'' @ api) expected),
                 Get (api_get cfg A None), Get (api_get cfg B None),
                 Get (api_get cfg C None)]) = Inr r3"
      and success: "status_code r0 < 400"
      and bodies: "json_body r0 = Some (JArr b0)" "json_body r1 = Some (JArr b1)"
                  "json_body r2 = Some (JArr b2)" "json_body r3 = Some (JArr b3)"
      and links: "carries_next E r0 A" "carries_next E r1 B"
                 "carries_next E r2 C" "carries_no_next E r3"
      and urls: "A \<noteq> []" "B \<noteq> []" "C \<noteq> []"
      and fuel: "3 \<le> fuel"
  shows "gh E cfg api expected fuel log =
           (Some (Inr (JArr (b0 @ b1 @ b2 @ b3))),
            log @ [Get (api_get cfg (''https://api.github.com/'' @ api) expected),
                   Get (api_get cfg A None), Get (api_get cfg B None),
                   Get (api_get cfg C None)])"
proof -
  let ?first = "api_get cfg (''https://api.github.com/'' @ api) expected"
  obtain k where k: "fuel = Suc (Suc (Suc k))"
    using fuel by (metis le_Suc_ex numeral_3_eq_3 add_Suc)
  note nxt = next_page_found [OF links(1)] next_page_found [OF links(2)]
    next_page_found [OF links(3)] next_page_absent [OF links(4)]
  have p3: "gh_pages E cfg k None (JArr (b0 @ b1 @ b2 @ b3)) l = (Some (Inr (JArr (b0 @ b1 @ b2 @ b3))), l)" for l
    by (simp add: return_io_apply)
  have p2: "gh_pages E cfg (Suc k) (Some C) (JArr (b0 @ b1 @ b2))
              (log @ [Get ?first, Get (api_get cfg A None), Get (api_get cfg B None)])
            = (Some (Inr (JArr (b0 @ b1 @ b2 @ b3))),
               log @ [Get ?first, Get (api_get cfg A None), Get (api_get cfg B None),
                   Get (api_get cfg C None)])"
    using urls(3) r3 bodies(4) nxt(4) p3
    by (simp add: io_simps py_extend_def json_of_def page_request_api_get)
  have p1: "gh_pages E cfg (Suc (Suc k)) (Some B) (JArr (b0 @ b1))
              (log @ [Get ?first, Get (api_get cfg A None)])
            = (Some (Inr (JArr (b0 @ b1 @ b2 @ b3))),
               log @ [Get ?first, Get (api_get cfg A None), Get (api_get cfg B None),
                   Get (api_get cfg C None)])"
    using urls(2) r2 bodies(3) nxt(3) p2
    by (simp add: io_simps py_extend_def json_of_def page_request_api_get)
  have p0: "gh_pages E cfg fuel (Some A) (JArr b0) (log @ [Get ?first])
            = (Some (Inr (JArr (b0 @ b1 @ b2 @ b3))),
               log @ [Get ?first, Get (api_get cfg A None), Get (api_get cfg B None),
                   Get (api_get cfg C None)])"
    using urls(1) r1 bodies(2) nxt(2) p1
    by (simp add: k io_simps py_extend_def json_of_def page_request_api_get)
  have "ok r0" using success by (simp add: ok_def)
  then show ?thesis
    using r0 bodies(1) nxt(1) p0
    by (simp add: gh_def io_simps json_of_def gh_request_api_get)
qed

theorem gh_follows_next_links_witness:
  "gh (demo_env paged_api no_output) demo_config ''orgs/acme/repos'' None 3 [] =
     (Some (Inr (JArr [JNum 1, JNum 2, JNum 3, JNum 4])),
      [Get \<lparr>req_url = ''https://api.github.com/orgs/acme/repos'',
            req_headers = Some [(''Authorization'', ''token s3cr3t'')],
            req_auth = None, req_expected = None\<rparr>,
       Get \<lparr>req_url = ''https://x.io/p2'',
            req_headers = Some [(''Authorization'', ''token s3cr3t'')],
            req_auth = None, req_expected = None\<rparr>,
       Get \<lparr>req_url = ''https://x.io/p3'',
            req_headers = Some [(''Authorization'', ''token s3cr3t'')],
            req_auth = None, req_expected = None\<rparr>,
       Get \<lparr>req_url = ''https://x.io/p4'',
            req_headers = Some [(''Authorization'', ''token s3cr3t'')],
            req_auth = None, req_expected = None\<rparr>])"
proof -
  let ?E = "demo_env paged_api no_output"
  let ?r0 = "reply 200 [(''Link'', next_and_last ''https://x.io/p2'')] (JArr [JNum 1])"
  let ?r1 = "reply 200 [(''link'', next_and_last ''https://x.io/p3'')] (JArr [JNum 2])"
  let ?r2 = "reply 200 [(''Link'', next_and_last ''https://x.io/p4'')] (JArr [JNum 3])"
  let ?r3 = "reply 200 [(''Link'', ''<https://x.io/p1>; rel='' @ quoted ''first'')] (JArr [JNum 4])"
  have parsed: "parse_header_links ?E (next_and_last url) =
      [[(''rel'', ''next''), (''url'', url)], [(''rel'', ''last''), (''url'', ''https://x.io/p4'')]]"
    if "url \<in> {''https://x.io/p2'', ''https://x.io/p3'', ''https://x.io/p4''}" for url
    using that by (auto simp: demo_env_def link_eval)
  have n0: "carries_next ?E ?r0 ''https://x.io/p2''"
    by (simp add: carries_next_def link_header_def reply_def lower_def lower_char_def parsed
        next_link_first)
  have n1: "carries_next ?E ?r1 ''https://x.io/p3''"
    by (simp add: carries_next_def link_header_def reply_def lower_def lower_char_def parsed
        next_link_first)
  have n2: "carries_next ?E ?r2 ''https://x.io/p4''"
    by (simp add: carries_next_def link_header_def reply_def lower_def lower_char_def parsed
        next_link_first)
  have n3: "carries_no_next ?E ?r3"
    by (simp add: carries_no_next_def link_header_def reply_def lower_def lower_char_def
        no_next_link_def demo_env_def link_eval)
  have web: "http_get ?E
      ([] @ [Get (api_get demo_config (''https://api.github.com/'' @ ''orgs/acme/repos'') None)]) = Inr ?r0"
    "http_get ?E
      ([] @ [Get (api_get demo_config (''https://api.github.com/'' @ ''orgs/acme/repos'') None),
             Get (api_get demo_config ''https://x.io/p2'' None)]) = Inr ?r1"
    "http_get ?E
      ([] @ [Get (api_get demo_config (''https://api.github.com/'' @ ''orgs/acme/repos'') None),
             Get (api_get demo_config ''https://x.io/p2'' None),
             Get (api_get demo_config ''https://x.io/p3'' None)]) = Inr ?r2"
    "http_get ?E
      ([] @ [Get (api_get demo_config (''https://api.github.com/'' @ ''orgs/acme/repos'') None),
             Get (api_get demo_config ''https://x.io/p2'' None),
             Get (api_get demo_config ''https://x.io/p3'' None),
             Get (api_get demo_config ''https://x.io/p4'' None)]) = Inr ?r3"
    by (simp_all add: demo_env_def paged_api_def api_get_def)
  have bodies: "status_code ?r0 < 400" "json_body ?r0 = Some (JArr [JNum 1])"
    "json_body ?r1 = Some (JArr [JNum 2])" "json_body ?r2 = Some (JArr [JNum 3])"
    "json_body ?r3 = Some (JArr [JNum 4])"
    by (simp_all add: reply_def)
  from gh_follows_next_links [OF web bodies n0 n1 n2 n3, of 3]
  show ?thesis by (simp add: api_get_def demo_config_def)
qed

text \<open>
  C10. Every call of \<open>gh\<close> in the program tolerates no status or \<^verbatim>\<open>(404,)\<close>,
  so a tolerated status is one from 400 to 599. When the first response has such a status
  among the tolerated ones, \<open>gh\<close> issues that one request and returns the JSON body of
  the response as it is, whatever link header it carries and whatever the fuel. In
  \<open>pull\<close> the mapped function, which tolerates \<^verbatim>\<open>404\<close>, then returns this body
  as a value, not the skip marker, and the loop over the results leaves out a body without
  an \<^verbatim>\<open>id\<close> key.
\<close>

theorem gh_tolerated_single_response:
  assumes "http_get E (log @ [Get (api_get cfg (''https://api.github.com/'' @ api) (Some tolerated))])
             = Inr r"
      and "status_code r \<in> set tolerated"
      and "\<forall>s \<in> set tolerated. 400 \<le> s \<and> s < 600"
      and "json_body r = Some body"
  shows "gh E cfg api (Some tolerated) fuel log =
           (Some (Inr body),
            log @ [Get (api_get cfg (''https://api.github.com/'' @ api) (Some tolerated))]) \<and>
         (\<forall>rp n. py_getitem rp ''full_name'' = Inr (JStr n) \<and> api = ''repos/'' @ n \<and>
                 tolerated = [404] \<longrightarrow>
            pull_verify E cfg fuel rp log =
              (Some (Inr (Val body)),
               log @ [Get (api_get cfg (''https://api.github.com/repos/'' @ n) (Some [404]))])) \<and>
         (py_in ''id'' body = Inr False \<longrightarrow> (\<forall>rest. pull_urls (body # rest) = pull_urls rest))"
proof -
  have "\<not> ok r" using assms(2,3) by (auto simp: ok_def)
  then have single: "gh E cfg api (Some tolerated) fuel log =
           (Some (Inr body),
            log @ [Get (api_get cfg (''https://api.github.com/'' @ api) (Some tolerated))])"
    using assms(1,4) by (simp add: gh_def io_simps json_of_def gh_request_api_get)
  have verify: "pull_verify E cfg fuel rp log =
              (Some (Inr (Val body)),
               log @ [Get (api_get cfg (''https://api.github.com/repos/'' @ n) (Some [404]))])"
    if "py_getitem rp ''full_name'' = Inr (JStr n)" "api = ''repos/'' @ n" "tolerated = [404]"
    for rp n
    using that single by (simp add: pull_verify_def io_simps as_str_def)
  have skip: "pull_urls (body # rest) = pull_urls rest" if "py_in ''id'' body = Inr False" for rest
    using that by (simp add: bind_e_def)
  from single verify skip show ?thesis by blast
qed

lemma gone_api_pull:
  "pull (demo_env gone_api no_output) demo_config 1 [] =
     (Some (Inr ()),
      [Get \<lparr>req_url = ''https://api.github.com/orgs/acme/repos'',
            req_headers = Some [(''Authorization'', ''token s3cr3t'')],
            req_auth = None, req_expected = None\<rparr>,
       Get \<lparr>req_url = ''https://api.github.com/repos/acme/app'',
            req_headers = Some [(''Authorization'', ''token s3cr3t'')],
            req_auth = None, req_expected = Some [404]\<rparr>])"
  by (simp add: pull_def gh_def io_simps json_of_def py_extend_def gh_eval gone_api_def
      pull_verify_def as_str_def async_map_def run_order_def run_thread_def force_def)

theorem gh_tolerated_single_response_witness:
  "carries_next (demo_env gone_api no_output)
     (reply 404 [(''Link'', next_and_last ''https://x.io/p2'')]
        (JObj [(''message'', JStr ''Not Found'')])) ''https://x.io/p2'' \<and>
   gh (demo_env gone_api no_output) demo_config ''repos/acme/app'' (Some [404]) 1 [] =
     (Some (Inr (JObj [(''message'', JStr ''Not Found'')])),
      [Get \<lparr>req_url = ''https://api.github.com/repos/acme/app'',
            req_headers = Some [(''Authorization'', ''token s3cr3t'')],
            req_auth = None, req_expected = Some [404]\<rparr>]) \<and>
   pull_verify (demo_env gone_api no_output) demo_config 1
       (JObj [(''full_name'', JStr ''acme/app'')]) [] =
     (Some (Inr (Val (JObj [(''message'', JStr ''Not Found'')]))),
      [Get \<lparr>req_url = ''https://api.github.com/repos/acme/app'',
            req_headers = Some [(''Authorization'', ''token s3cr3t'')],
            req_auth = None, req_expected = Some [404]\<rparr>]) \<and>
   pull_urls [JObj [(''message'', JStr ''Not Found'')]] = Inr [] \<and>
   pull (demo_env gone_api no_output) demo_config 1 [] =
     (Some (Inr ()),
      [Get \<lparr>req_url = ''https://api.github.com/orgs/acme/repos'',
            req_headers = Some [(''Authorization'', ''token s3cr3t'')],
            req_auth = None, req_expected = None\<rparr>,
       Get \<lparr>req_url = ''https://api.github.com/repos/acme/app'',
            req_headers = Some [(''Authorization'', ''token s3cr3t'')],
            req_auth = None, req_expected = Some [404]\<rparr>])"
proof -
  let ?E = "demo_env gone_api no_output"
  let ?r = "reply 404 [(''Link'', next_and_last ''https://x.io/p2'')]
              (JObj [(''message'', JStr ''Not Found'')])"
  have a: "http_get ?E
             ([] @ [Get (api_get demo_config (''https://api.github.com/'' @ ''repos/acme/app'')
                      (Some [404]))]) = Inr ?r"
    by (simp add: demo_env_def gone_api_def api_get_def)
  have b: "status_code ?r \<in> set [404]" by (simp add: reply_def)
  have c: "\<forall>s \<in> set [404::nat]. 400 \<le> s \<and> s < 600" by simp
  have d: "json_body ?r = Some (JObj [(''message'', JStr ''Not Found'')])"
    by (simp add: reply_def)
  have e: "py_getitem (JObj [(''full_name'', JStr ''acme/app'')]) ''full_name'' =
             Inr (JStr ''acme/app'')"
    by simp
  have f: "py_in ''id'' (JObj [(''message'', JStr ''Not Found'')]) = Inr False"
    by simp
  have g: "carries_next ?E ?r ''https://x.io/p2''"
    by (simp add: carries_next_def link_header_def reply_def lower_def lower_char_def
        demo_env_def link_eval next_link_first)
  from gh_tolerated_single_response [OF a b c d, of 1] e f g gone_api_pull
  show ?thesis by (simp add: api_get_def demo_config_def)
qed
section \<open>Deploy coordinator: ownership and conflicts\<close>

lemma claim_owner:
  "map_of (fst (claim svc rs (os, cs))) r =
     (case map_of os r of Some owner \<Rightarrow> Some owner
      | None \<Rightarrow> if r \<in> set rs then Some svc else None)"
proof (induction rs arbitrary: os cs)
  case Nil
  then show ?case by (simp split: option.splits)
next
  case (Cons a rs)
  show ?case
  proof (cases "map_of os a")
    case None
    then show ?thesis
      using Cons.IH [of "os @ [(a, svc)]" cs]
      by (auto simp: map_add_def split: option.splits)
  next
    case (Some owner)
    then show ?thesis
      using Cons.IH [of os "cs @ [(a, svc_name owner, svc_name svc)]"]
      by (auto split: option.splits)
  qed
qed

lemma owner_after_append:
  "map_of os a = None \<Longrightarrow> owner_after (os @ [(a, svc)]) svc = owner_after os svc"
  by (rule ext) (simp add: owner_after_def map_add_def split: option.splits)

lemma map_of_None_fst: "map_of os a = None \<longleftrightarrow> a \<notin> set (map fst os)"
  by (simp add: map_of_eq_None_iff)

lemma claim_conflicts:
  "snd (claim svc rs (os, cs)) =
     cs @ map (\<lambda>r. (r, svc_name (owner_after os svc r), svc_name svc)) (reclaimed (map fst os) rs)"
proof (induction rs arbitrary: os cs)
  case Nil
  then show ?case by simp
next
  case (Cons a rs)
  show ?case
  proof (cases "map_of os a")
    case None
    then have "a \<notin> set (map fst os)" by (simp add: map_of_None_fst)
    then show ?thesis
      using None Cons.IH [of "os @ [(a, svc)]" cs]
      by (simp add: owner_after_append)
  next
    case (Some owner)
    then have "a \<in> set (map fst os)" by (rule key_of_map_of)
    then show ?thesis
      using Some Cons.IH [of os "cs @ [(a, svc_name owner, svc_name svc)]"]
      by (simp add: owner_after_def)
  qed
qed

lemma claim_conflicts_prefix: "prefix cs (snd (claim svc rs (os, cs)))"
  by (simp add: claim_conflicts)


lemma kube_file_manifest: "kube_file_of svc = manifest_of svc"
  by (simp add: kube_file_of_def manifest_of_def os_path_join_def)

lemma map_filter_append:
  "List.map_filter f (xs @ ys) = List.map_filter f xs @ List.map_filter f ys"
  by (simp add: List.map_filter_def)

lemma listing_join: "py_join '', '' (map conflict_message cs) = listing cs"
  by (induction cs rule: listing.induct) (simp_all add: conflict_message_def)

lemma conflicts_error_listing: "conflicts_error cs = CLIError (''conflicts: '' @ listing cs)"
  by (simp add: conflicts_error_def listing_join)

lemma listing_lists: "c \<in> set cs \<Longrightarrow> sublist (listing [c]) (listing cs)"
proof (induction cs rule: listing.induct)
  case 1
  then show ?case by simp
next
  case (2 r a b)
  then show ?case by simp
next
  case (3 r a b d ds)
  show ?case
  proof (cases "c = (r, a, b)")
    case True
    have "prefix (listing [c]) (listing ((r, a, b) # d # ds))"
      using True by (simp add: prefix_def)
    then show ?thesis by (rule prefix_imp_sublist)
  next
    case False
    then have "sublist (listing [c]) (listing (d # ds))" using 3 by simp
    then obtain ps ss where "listing (d # ds) = ps @ listing [c] @ ss"
      by (auto simp: sublist_def)
    then have "listing ((r, a, b) # d # ds) =
        (r @ '' defined by '' @ a @ '' and '' @ b @ '', '' @ ps) @ listing [c] @ ss"
      by simp
    then show ?thesis unfolding sublist_def by blast
  qed
qed

lemma applies_recognised:
  "filter is_apply (map (\<lambda>s. Call ([Str ''kubectl'', Str ''apply'', Str ''-f'', Str (f s)] @ rest)
       cwd verbose) svcs) =
   map (\<lambda>s. Call ([Str ''kubectl'', Str ''apply'', Str ''-f'', Str (f s)] @ rest) cwd verbose) svcs"
  by (induction svcs) simp_all

lemma rev_parse_not_generated: "set new \<subseteq> range rev_parse \<Longrightarrow> List.map_filter generated new = []"
  by (induction new) (auto simp: List.map_filter_def generated_def rev_parse_def)

lemma deploy_service_returns:
  "\<exists>new rs. deploy_service E cfg svc st log =
      (Some (Inr \<lparr>owners = fst (claim svc rs (owners st, conflicts st)),
                   conflicts = snd (claim svc rs (owners st, conflicts st)),
                   kube_files = kube_files st @ [kube_file_of svc]\<rparr>), log @ new) \<and>
      filter is_apply new = [] \<and> List.map_filter generated new = [manifest_of svc]"
proof -
  obtain filename metadata where m: "service_metadata E svc (registry cfg) (repo cfg) = (filename, metadata)"
    by (cases "service_metadata E svc (registry cfg) (repo cfg)")
  define c1 where "c1 = Call [Str ''./deployment'', Str ''metadata.yaml''] (Some (svc_root svc)) False"
  define c2 where "c2 = Call [Str ''kubectl'', Str ''apply'', Str ''--dry-run'', Str ''-f'',
                       Str (kube_file_of svc), Str ''-o'', Str ''name''] None False"
  define out1 where "out1 = cmd_output E (log @ [Write filename metadata, c1])"
  define new where "new = [Write filename metadata, c1, Write (kube_file_of svc) out1, c2]"
  define rs where "rs = py_split (cmd_output E (log @ new))"
  have run: "deploy_service E cfg svc st log =
      (Some (Inr \<lparr>owners = fst (claim svc rs (owners st, conflicts st)),
                   conflicts = snd (claim svc rs (owners st, conflicts st)),
                   kube_files = kube_files st @ [kube_file_of svc]\<rparr>), log @ new)"
    unfolding deploy_service_def m rs_def new_def out1_def c1_def c2_def
    by (simp add: io_simps split: prod.splits)
  have quiet: "filter is_apply new = []"
    by (simp add: new_def c1_def c2_def)
  have dry: "List.map_filter generated new = [manifest_of svc]"
    by (simp add: new_def c1_def c2_def List.map_filter_def generated_def kube_file_manifest)
  from run quiet dry show ?thesis by blast
qed

lemma found_service_ledger:
  "ledger (found_service E path st) = ledger st @ [rev_parse path]"
  by (simp add: found_service_def rev_parse_def Let_def)

lemma add_container_ledger: "ledger (add_container E path i st) = ledger st"
  by (simp add: add_container_def Let_def)

lemma enter_ledger:
  "\<exists>new. ledger (snd (enter E path parent es st)) = ledger st @ new \<and> set new \<subseteq> range rev_parse"
  by (auto simp: enter_def Let_def found_service_ledger add_container_ledger split: option.splits)

lemma descend_ledger:
  "\<exists>new. ledger (descend E path parent es st) = ledger st @ new \<and> set new \<subseteq> range rev_parse"
  "\<exists>new. ledger (descend_each E path parent es st) = ledger st @ new \<and> set new \<subseteq> range rev_parse"
proof (induction E path parent es st and E path parent es st rule: descend_descend_each.induct)
  case (1 E path parent entries st)
  show ?case
  proof (cases "has_name ''proto.yaml'' entries")
    case True
    then show ?thesis by (simp add: add_prototype_def)
  next
    case False
    obtain n1 where n1: "ledger (snd (enter E path parent entries st)) = ledger st @ n1"
      "set n1 \<subseteq> range rev_parse"
      using enter_ledger by blast
    obtain n2 where n2: "ledger (descend_each E path (fst (enter E path parent entries st)) entries
             (snd (enter E path parent entries st))) = ledger (snd (enter E path parent entries st)) @ n2"
      "set n2 \<subseteq> range rev_parse"
      using 1 [OF False] by blast
    have "ledger (descend E path parent entries st) = ledger st @ (n1 @ n2)"
      using False n1 n2 by simp
    moreover have "set (n1 @ n2) \<subseteq> range rev_parse" using n1 n2 by simp
    ultimately show ?thesis by blast
  qed
next
  case (2 E path parent st)
  show ?case by simp
next
  case (3 E path parent n rest st)
  then show ?case by simp
next
  case (4 E path parent n sub rest st)
  show ?case
  proof (cases "n \<in> set EXCLUDED")
    case True
    then show ?thesis using 4(1) by simp
  next
    case False
    obtain n1 where n1: "ledger (descend E (os_path_join path n) parent sub st) = ledger st @ n1"
      "set n1 \<subseteq> range rev_parse"
      using 4(2) [OF False] by blast
    obtain n2 where n2: "ledger (descend_each E path parent rest (descend E (os_path_join path n) parent sub st))
         = ledger (descend E (os_path_join path n) parent sub st) @ n2"
      "set n2 \<subseteq> range rev_parse"
      using 4(3) [OF False] by blast
    have "ledger (descend_each E path parent ((n, Dir sub) # rest) st) = ledger st @ (n1 @ n2)"
      using False n1 n2 by simp
    moreover have "set (n1 @ n2) \<subseteq> range rev_parse" using n1 n2 by simp
    ultimately show ?thesis by blast
  qed
qed

lemma scan_ledger:
  assumes "scan E cfg root log = (r, log')"
  shows "\<exists>new. log' = log @ new \<and> set new \<subseteq> range rev_parse"
proof (cases root)
  case File
  then show ?thesis using assms by (simp add: scan_def)
next
  case (Dir entries)
  then show ?thesis
    using assms descend_ledger(1) [of E "workdir cfg" None entries
        "\<lparr>prototypes = [], services = [], ledger = log\<rparr>"]
    by (auto simp: scan_def Let_def)
qed

lemma rev_parse_quiet: "set new \<subseteq> range rev_parse \<Longrightarrow> filter is_apply new = []"
  by (auto simp: filter_empty_conv rev_parse_def)

lemma deploy_services_returns:
  "\<exists>st' new. deploy_services E cfg svcs st log = (Some (Inr st'), log @ new) \<and>
      filter is_apply new = [] \<and>
      List.map_filter generated new = map manifest_of svcs \<and>
      kube_files st' = kube_files st @ map kube_file_of svcs \<and>
      prefix (conflicts st) (conflicts st') \<and>
      (\<forall>r owner. map_of (owners st) r = Some owner \<longrightarrow> map_of (owners st') r = Some owner)"
proof (induction svcs arbitrary: st log)
  case Nil
  show ?case by (simp add: return_io_apply List.map_filter_def)
next
  case (Cons svc svcs)
  obtain n1 rs where s1: "deploy_service E cfg svc st log =
      (Some (Inr \<lparr>owners = fst (claim svc rs (owners st, conflicts st)),
                   conflicts = snd (claim svc rs (owners st, conflicts st)),
                   kube_files = kube_files st @ [kube_file_of svc]\<rparr>), log @ n1)"
      and q1: "filter is_apply n1 = []"
      and g1: "List.map_filter generated n1 = [manifest_of svc]"
    using deploy_service_returns by blast
  let ?st1 = "\<lparr>owners = fst (claim svc rs (owners st, conflicts st)),
                   conflicts = snd (claim svc rs (owners st, conflicts st)),
                   kube_files = kube_files st @ [kube_file_of svc]\<rparr>"
  obtain st' n2 where s2: "deploy_services E cfg svcs ?st1 (log @ n1) = (Some (Inr st'), (log @ n1) @ n2)"
      and q2: "filter is_apply n2 = []"
      and g2: "List.map_filter generated n2 = map manifest_of svcs"
      and k2: "kube_files st' = kube_files ?st1 @ map kube_file_of svcs"
      and c2: "prefix (conflicts ?st1) (conflicts st')"
      and o2: "\<forall>r owner. map_of (owners ?st1) r = Some owner \<longrightarrow> map_of (owners st') r = Some owner"
    using Cons.IH [of ?st1 "log @ n1"] by blast
  have run: "deploy_services E cfg (svc # svcs) st log = (Some (Inr st'), log @ (n1 @ n2))"
    using s1 s2 by (simp add: bind_io_apply)
  have quiet: "filter is_apply (n1 @ n2) = []" using q1 q2 by simp
  have dry: "List.map_filter generated (n1 @ n2) = map manifest_of (svc # svcs)"
    using g1 g2 by (simp add: map_filter_append)
  have files: "kube_files st' = kube_files st @ map kube_file_of (svc # svcs)" using k2 by simp
  have "prefix (conflicts st) (conflicts ?st1)" by (simp add: claim_conflicts_prefix)
  then have pre: "prefix (conflicts st) (conflicts st')" using c2 by (rule prefix_order.trans)
  have keep: "map_of (owners st') r = Some owner" if "map_of (owners st) r = Some owner" for r owner
  proof -
    have "map_of (owners ?st1) r = Some owner" using that by (simp add: claim_owner)
    then show ?thesis using o2 by blast
  qed
  from run quiet dry files pre keep show ?case by blast
qed

lemma apply_all_run:
  "apply_all E cfg fs log =
     (Some (Inr ()),
      log @ map (\<lambda>f. Call ([Str ''kubectl'', Str ''apply'', Str ''-f'', Str f]
                              @ (if dry_run cfg then [Str ''--dry-run''] else [])) None True) fs)"
  by (induction fs arbitrary: log) (simp_all add: io_simps apply_cmd_def)

lemmas scan_eval =
  scan_def has_name_def add_prototype_def enter_def found_service_def add_container_def
  EXCLUDED_def os_path_join_def py_strip_def is_space_def demo_env_def demo_config_def Let_def

lemmas deploy_eval =
  deploy_service_def io_simps initial_def demo_service_def kube_file_of_def os_path_join_def
  demo_env_def demo_config_def cluster_def py_split_def is_space_def rev_parse_def

text \<open>
  C1. For the services that the scan returns, the per-service phase always returns; its
  dry runs are those of the manifest files of the services, in service order, and it
  makes no committing call. If it recorded a conflict, \<open>deploy\<close> raises one error,
  whose message is \<^verbatim>\<open>conflicts:\<close> followed by the list of all recorded
  conflicts, each of them in it, and the ledger ends there: nothing is applied. If it
  recorded none, \<open>deploy\<close> returns after the calls
  \<^verbatim>\<open>kubectl apply -f file\<close> (with \<^verbatim>\<open>--dry-run\<close> when the operator asked
  for a dry run), one for the manifest file of every service, in the order of the dry
  runs, and these are the only committing calls of the run. The commands and the file
  writes of the per-service phase are taken to return, as the ledger of the spec does; one
  that raised would end \<open>deploy\<close> there, before the final loop.
\<close>

theorem deploy_all_or_nothing:
  assumes "scan E cfg root log = (Some (Inr (protos, svcs)), log0)"
  shows "\<exists>st log1.
           deploy_services E cfg svcs initial log0 = (Some (Inr st), log1) \<and>
           List.map_filter generated (drop (length log) log1) = map manifest_of svcs \<and>
           filter is_apply (drop (length log) log1) = [] \<and>
           (conflicts st \<noteq> [] \<longrightarrow>
              deploy E cfg root log =
                (Some (Inl (CLIError (''conflicts: '' @ listing (conflicts st)))), log1) \<and>
              (\<forall>c \<in> set (conflicts st). sublist (listing [c]) (listing (conflicts st)))) \<and>
           (conflicts st = [] \<longrightarrow>
              deploy E cfg root log =
                (Some (Inr ()),
                 log1 @ map (\<lambda>s. Call ([Str ''kubectl'', Str ''apply'', Str ''-f'', Str (manifest_of s)]
                                        @ (if dry_run cfg then [Str ''--dry-run''] else []))
                                  None True) svcs) \<and>
              filter is_apply (drop (length log)
                 (log1 @ map (\<lambda>s. Call ([Str ''kubectl'', Str ''apply'', Str ''-f'', Str (manifest_of s)]
                                        @ (if dry_run cfg then [Str ''--dry-run''] else []))
                                  None True) svcs)) =
                map (\<lambda>s. Call ([Str ''kubectl'', Str ''apply'', Str ''-f'', Str (manifest_of s)]
                               @ (if dry_run cfg then [Str ''--dry-run''] else []))
                         None True) svcs)"
proof -
  let ?applies = "map (\<lambda>s. Call ([Str ''kubectl'', Str ''apply'', Str ''-f'', Str (manifest_of s)]
                               @ (if dry_run cfg then [Str ''--dry-run''] else []))
                         None True) svcs"
  obtain n0 where n0: "log0 = log @ n0" "set n0 \<subseteq> range rev_parse"
    using scan_ledger [OF assms] by blast
  obtain st n1 where run: "deploy_services E cfg svcs initial log0 = (Some (Inr st), log0 @ n1)"
      and q1: "filter is_apply n1 = []"
      and g1: "List.map_filter generated n1 = map manifest_of svcs"
      and files: "kube_files st = kube_files initial @ map kube_file_of svcs"
    using deploy_services_returns [of E cfg svcs initial log0] by blast
  have quiet: "filter is_apply (drop (length log) (log0 @ n1)) = []"
    using n0 q1 by (simp add: rev_parse_quiet)
  have dry: "List.map_filter generated (drop (length log) (log0 @ n1)) = map manifest_of svcs"
    using n0 g1 by (simp add: map_filter_append rev_parse_not_generated)
  have abort: "deploy E cfg root log =
      (Some (Inl (CLIError (''conflicts: '' @ listing (conflicts st)))), log0 @ n1)"
    if "conflicts st \<noteq> []"
    using that assms run
    by (simp add: deploy_def bind_io_apply raise_io_apply conflicts_error_listing)
  have each: "\<forall>c \<in> set (conflicts st). sublist (listing [c]) (listing (conflicts st))"
    by (simp add: listing_lists)
  have files': "kube_files st = map manifest_of svcs"
    using files by (simp add: initial_def kube_file_manifest)
  have commit: "deploy E cfg root log = (Some (Inr ()), (log0 @ n1) @ ?applies)"
    if "conflicts st = []"
    using that assms run by (simp add: deploy_def bind_io_apply apply_all_run files' o_def)
  have only: "filter is_apply (drop (length log) ((log0 @ n1) @ ?applies)) = ?applies"
    using n0 q1 applies_recognised [of manifest_of "if dry_run cfg then [Str ''--dry-run''] else []" None True svcs]
    by (simp add: rev_parse_quiet)
  from run dry quiet abort each commit only show ?thesis by blast
qed

lemma contested_cluster_scan:
  "scan contested_cluster demo_config two_services [] =
     (Some (Inr ([], [demo_service ''/w/s1'' [], demo_service ''/w/s2'' []])),
      [rev_parse ''/w/s1'', rev_parse ''/w/s2''])"
  by (simp add: contested_cluster_def scan_eval cluster_def two_services_def demo_service_def rev_parse_def)

lemma contested_cluster_conflicts:
  "map_option (map_sum id conflicts)
     (fst (deploy_services contested_cluster demo_config
        [demo_service ''/w/s1'' [], demo_service ''/w/s2'' []] initial
        [rev_parse ''/w/s1'', rev_parse ''/w/s2''])) =
   Some (Inr [(''a'', ''/w/s1'', ''/w/s2''), (''b'', ''/w/s1'', ''/w/s2'')])"
  by (simp add: contested_cluster_def deploy_eval)

lemma disjoint_cluster_scan:
  "scan disjoint_cluster demo_config two_services [] =
     (Some (Inr ([], [demo_service ''/w/s1'' [], demo_service ''/w/s2'' []])),
      [rev_parse ''/w/s1'', rev_parse ''/w/s2''])"
  by (simp add: disjoint_cluster_def scan_eval cluster_def two_services_def demo_service_def rev_parse_def)

lemma disjoint_cluster_conflicts:
  "map_option (map_sum id conflicts)
     (fst (deploy_services disjoint_cluster demo_config
        [demo_service ''/w/s1'' [], demo_service ''/w/s2'' []] initial
        [rev_parse ''/w/s1'', rev_parse ''/w/s2''])) =
   Some (Inr [])"
  by (simp add: disjoint_cluster_def deploy_eval)

theorem deploy_all_or_nothing_witness:
  "(\<exists>log1. deploy contested_cluster demo_config two_services [] =
             (Some (Inl (CLIError
                ''conflicts: a defined by /w/s1 and /w/s2, b defined by /w/s1 and /w/s2'')), log1) \<and>
           List.map_filter generated log1 = [''/w/s1/kube.yaml'', ''/w/s2/kube.yaml''] \<and>
           filter is_apply log1 = []) \<and>
   (\<exists>log1. deploy disjoint_cluster demo_config two_services [] =
             (Some (Inr ()),
              log1 @ [Call [Str ''kubectl'', Str ''apply'', Str ''-f'', Str ''/w/s1/kube.yaml''] None True,
                      Call [Str ''kubectl'', Str ''apply'', Str ''-f'', Str ''/w/s2/kube.yaml''] None True]) \<and>
           List.map_filter generated log1 = [''/w/s1/kube.yaml'', ''/w/s2/kube.yaml''] \<and>
           filter is_apply log1 = [])"
proof
  from deploy_all_or_nothing [OF contested_cluster_scan]
  obtain st log1 where
    run: "deploy_services contested_cluster demo_config
            [demo_service ''/w/s1'' [], demo_service ''/w/s2'' []] initial
            [rev_parse ''/w/s1'', rev_parse ''/w/s2''] = (Some (Inr st), log1)"
    and dry: "List.map_filter generated (drop (length ([] :: event list)) log1) =
        map manifest_of [demo_service ''/w/s1'' [], demo_service ''/w/s2'' []]"
    and quiet: "filter is_apply (drop (length ([] :: event list)) log1) = []"
    and abort: "conflicts st \<noteq> [] \<longrightarrow>
        deploy contested_cluster demo_config two_services [] =
          (Some (Inl (CLIError (''conflicts: '' @ listing (conflicts st)))), log1) \<and>
        (\<forall>c \<in> set (conflicts st). sublist (listing [c]) (listing (conflicts st)))"
    by blast
  have c: "conflicts st = [(''a'', ''/w/s1'', ''/w/s2''), (''b'', ''/w/s1'', ''/w/s2'')]"
    using contested_cluster_conflicts run by simp
  have "deploy contested_cluster demo_config two_services [] =
          (Some (Inl (CLIError
             ''conflicts: a defined by /w/s1 and /w/s2, b defined by /w/s1 and /w/s2'')), log1)"
    using abort c by simp
  moreover have "List.map_filter generated log1 = [''/w/s1/kube.yaml'', ''/w/s2/kube.yaml'']"
    using dry by (simp add: manifest_of_def demo_service_def)
  ultimately show "\<exists>log1. deploy contested_cluster demo_config two_services [] =
             (Some (Inl (CLIError
                ''conflicts: a defined by /w/s1 and /w/s2, b defined by /w/s1 and /w/s2'')), log1) \<and>
           List.map_filter generated log1 = [''/w/s1/kube.yaml'', ''/w/s2/kube.yaml''] \<and>
           filter is_apply log1 = []"
    using quiet by auto
next
  from deploy_all_or_nothing [OF disjoint_cluster_scan]
  obtain st log1 where
    run: "deploy_services disjoint_cluster demo_config
            [demo_service ''/w/s1'' [], demo_service ''/w/s2'' []] initial
            [rev_parse ''/w/s1'', rev_parse ''/w/s2''] = (Some (Inr st), log1)"
    and dry: "List.map_filter generated (drop (length ([] :: event list)) log1) =
        map manifest_of [demo_service ''/w/s1'' [], demo_service ''/w/s2'' []]"
    and quiet: "filter is_apply (drop (length ([] :: event list)) log1) = []"
    and commit: "conflicts st = [] \<longrightarrow>
        deploy disjoint_cluster demo_config two_services [] =
          (Some (Inr ()),
           log1 @ map (\<lambda>s. Call ([Str ''kubectl'', Str ''apply'', Str ''-f'', Str (manifest_of s)]
                                  @ (if dry_run demo_config then [Str ''--dry-run''] else []))
                            None True) [demo_service ''/w/s1'' [], demo_service ''/w/s2'' []])"
    by blast
  have c: "conflicts st = []"
    using disjoint_cluster_conflicts run by simp
  have "deploy disjoint_cluster demo_config two_services [] =
             (Some (Inr ()),
              log1 @ [Call [Str ''kubectl'', Str ''apply'', Str ''-f'', Str ''/w/s1/kube.yaml''] None True,
                      Call [Str ''kubectl'', Str ''apply'', Str ''-f'', Str ''/w/s2/kube.yaml''] None True])"
    using commit c by (simp add: manifest_of_def demo_service_def demo_config_def)
  moreover have "List.map_filter generated log1 = [''/w/s1/kube.yaml'', ''/w/s2/kube.yaml'']"
    using dry by (simp add: manifest_of_def demo_service_def)
  ultimately show "\<exists>log1. deploy disjoint_cluster demo_config two_services [] =
             (Some (Inr ()),
              log1 @ [Call [Str ''kubectl'', Str ''apply'', Str ''-f'', Str ''/w/s1/kube.yaml''] None True,
                      Call [Str ''kubectl'', Str ''apply'', Str ''-f'', Str ''/w/s2/kube.yaml''] None True]) \<and>
           List.map_filter generated log1 = [''/w/s1/kube.yaml'', ''/w/s2/kube.yaml''] \<and>
           filter is_apply log1 = []"
    using quiet by auto
qed

text \<open>
  C2, as the claim states it, fails in its "only if": the code tests whether the name is
  already claimed, not by whom. A service whose dry run reports the resource
  \<^verbatim>\<open>a\<close> twice is recorded as in conflict with itself.
\<close>

theorem claim_same_service_counterexample:
  "deploy_services repeating_cluster demo_config [demo_service ''/w/s1'' []] initial [] =
     (Some (Inr \<lparr>owners = [(''a'', demo_service ''/w/s1'' [])],
                  conflicts = [(''a'', ''/w/s1'', ''/w/s1'')],
                  kube_files = [''/w/s1/kube.yaml'']\<rparr>),
      [Write ''/w/s1/metadata.yaml'' ''/w/s1'',
       Call [Str ''./deployment'', Str ''metadata.yaml''] (Some ''/w/s1'') False,
       Write ''/w/s1/kube.yaml'' [],
       dry_run_call ''/w/s1/kube.yaml''])"
  by (simp add: repeating_cluster_def deploy_eval dry_run_call_def)

text \<open>
  C2, amended. While a service claims a list of resource names, a name that has an owner
  keeps it, and a name without one gets the service as owner if the service claims it;
  a conflict tuple (name, name of the owner on record, name of the claiming service) is
  appended for exactly the claims of a name that is already claimed, in order, whether
  the earlier claim came from another service or from the same one. Over a whole run
  the per-service phase always returns: every owner on record stays, the conflicts
  recorded so far stay, and every service is processed (one manifest file each),
  conflicts or not.
\<close>

theorem claim_first_owner_kept:
  "map_of (fst (claim svc rs (os, cs))) r =
     (case map_of os r of
        Some owner \<Rightarrow> Some owner
      | None \<Rightarrow> if r \<in> set rs then Some svc else None) \<and>
   snd (claim svc rs (os, cs)) =
     cs @ map (\<lambda>r. (r, svc_name (owner_after os svc r), svc_name svc))
            (reclaimed (map fst os) rs) \<and>
   (\<exists>st' log'.
      deploy_services E cfg svcs st log = (Some (Inr st'), log') \<and>
      kube_files st' = kube_files st @ map kube_file_of svcs \<and>
      prefix (conflicts st) (conflicts st') \<and>
      (\<forall>r owner. map_of (owners st) r = Some owner \<longrightarrow> map_of (owners st') r = Some owner))"
proof -
  have whole: "\<exists>st' log'.
      deploy_services E cfg svcs st log = (Some (Inr st'), log') \<and>
      kube_files st' = kube_files st @ map kube_file_of svcs \<and>
      prefix (conflicts st) (conflicts st') \<and>
      (\<forall>r owner. map_of (owners st) r = Some owner \<longrightarrow> map_of (owners st') r = Some owner)"
    using deploy_services_returns [of E cfg svcs st log] by blast
  show ?thesis
    using claim_owner [of svc rs os cs r] claim_conflicts [of svc rs os cs] whole by blast
qed

theorem claim_first_owner_kept_witness:
  "map_of (fst (claim (demo_service ''/w/s2'' []) [''b'', ''c'']
                 ([(''a'', demo_service ''/w/s1'' []), (''b'', demo_service ''/w/s1'' [])], []))) ''b''
     = Some (demo_service ''/w/s1'' []) \<and>
   snd (claim (demo_service ''/w/s2'' []) [''b'', ''c'']
          ([(''a'', demo_service ''/w/s1'' []), (''b'', demo_service ''/w/s1'' [])], []))
     = [(''b'', ''/w/s1'', ''/w/s2'')] \<and>
   (\<exists>st' log'.
      deploy_services shared_cluster demo_config
        [demo_service ''/w/s1'' [], demo_service ''/w/s2'' []]
        \<lparr>owners = [(''z'', demo_service ''/w/s0'' [])], conflicts = [], kube_files = []\<rparr> [] =
        (Some (Inr st'), log') \<and>
      kube_files st' = [''/w/s1/kube.yaml'', ''/w/s2/kube.yaml''] \<and>
      map_of (owners st') ''z'' = Some (demo_service ''/w/s0'' []))"
  using claim_first_owner_kept [of "demo_service ''/w/s2'' []" "[''b'', ''c'']"
      "[(''a'', demo_service ''/w/s1'' []), (''b'', demo_service ''/w/s1'' [])]" "[]" "''b''"
      shared_cluster demo_config "[demo_service ''/w/s1'' [], demo_service ''/w/s2'' []]"
      "\<lparr>owners = [(''z'', demo_service ''/w/s0'' [])], conflicts = [], kube_files = []\<rparr>" "[]"]
  by (auto simp: owner_after_def demo_service_def kube_file_of_def os_path_join_def)

section \<open>The fan-out in spawn order\<close>

lemma wait_threads_gather: "wait_threads res ts = gather (map res ts)"
  by (induction ts) (auto split: option.splits sum.splits outcome.splits)

lemma map_of_finished_from:
  "map_of (finished_from k rs) t =
     (if k \<le> t \<and> t < k + length rs then rs ! (t - k) else None)"
proof (induction k rs arbitrary: t rule: finished_from.induct)
  case (1 k)
  show ?case by auto
next
  case (2 k rs)
  show ?case
  proof (cases "t = k")
    case True
    then show ?thesis using 2 [of t] by simp
  next
    case False
    then show ?thesis using 2 [of t] by (auto simp: nth_Cons' Suc_diff_Suc)
  qed
next
  case (3 k r rs)
  show ?case
  proof (cases "t = k")
    case True
    then show ?thesis by simp
  next
    case False
    then show ?thesis using 3 [of t] by (auto simp: nth_Cons' Suc_diff_Suc)
  qed
qed

lemma map_finished_from: "map (map_of (finished_from 0 rs)) [0..<length rs] = rs"
  by (rule nth_equalityI) (simp_all add: map_of_finished_from)

lemma run_jobs_length: "length (fst (run_jobs fn xs s)) = length xs"
proof (induction xs arbitrary: s)
  case Nil
  show ?case by simp
next
  case (Cons x xs)
  obtain r s' where step: "fn x s = (r, s')" by (cases "fn x s")
  obtain rs s'' where rest: "run_jobs fn xs s' = (rs, s'')" by (cases "run_jobs fn xs s'")
  have "length rs = length xs" using Cons [of s'] rest by simp
  then show ?case by (simp add: step rest)
qed

lemma fold_run_thread_jobs:
  "fold (run_thread fn (pre @ xs)) [length pre..<length pre + length xs] (fin, s) =
     (fin @ finished_from (length pre) (fst (run_jobs fn xs s)), snd (run_jobs fn xs s))"
proof (induction xs arbitrary: pre fin s)
  case Nil
  show ?case by simp
next
  case (Cons x xs)
  obtain r s' where step: "fn x s = (r, s')" by (cases "fn x s")
  have range: "[length pre..<length pre + length (x # xs)] =
      length pre # [length (pre @ [x])..<length (pre @ [x]) + length xs]"
    by (simp add: upt_rec)
  have items: "pre @ x # xs = (pre @ [x]) @ xs" by simp
  show ?case
  proof (cases r)
    case None
    have "fold (run_thread fn (pre @ x # xs)) [length pre..<length pre + length (x # xs)] (fin, s) =
        fold (run_thread fn ((pre @ [x]) @ xs)) [length (pre @ [x])..<length (pre @ [x]) + length xs] (fin, s')"
      unfolding range by (simp add: run_thread_def step None)
    also have "\<dots> = (fin @ finished_from (length (pre @ [x])) (fst (run_jobs fn xs s')),
         snd (run_jobs fn xs s'))"
      by (rule Cons.IH)
    finally show ?thesis by (simp add: step None split: prod.splits)
  next
    case (Some v)
    have "fold (run_thread fn (pre @ x # xs)) [length pre..<length pre + length (x # xs)] (fin, s) =
        fold (run_thread fn ((pre @ [x]) @ xs)) [length (pre @ [x])..<length (pre @ [x]) + length xs]
          (fin @ [(length pre, v)], s')"
      unfolding range by (simp add: run_thread_def step Some)
    also have "\<dots> = ((fin @ [(length pre, v)]) @ finished_from (length (pre @ [x])) (fst (run_jobs fn xs s')),
         snd (run_jobs fn xs s'))"
      by (rule Cons.IH)
    finally show ?thesis by (simp add: step Some split: prod.splits)
  qed
qed

lemma async_map_spawn_order:
  "async_map fn items [] s = (gather (fst (run_jobs fn items s)), snd (run_jobs fn items s))"
proof -
  have "fold (run_thread fn items) [0..<length items] ([], s) =
      (finished_from 0 (fst (run_jobs fn items s)), snd (run_jobs fn items s))"
    using fold_run_thread_jobs [of fn "[]" items "[]" s] by simp
  moreover have "wait_threads (map_of (finished_from 0 (fst (run_jobs fn items s)))) [0..<length items] =
      gather (fst (run_jobs fn items s))"
    using map_finished_from [of "fst (run_jobs fn items s)"]
    by (simp add: wait_threads_gather run_jobs_length)
  ultimately show ?thesis
    by (simp add: async_map_def run_order_spawn)
qed

section \<open>Push selection\<close>

lemma appends_return: "appends S (return_io x)"
  by (simp add: appends_def return_io_def)

lemma appends_raise: "appends S (raise_io e)"
  by (simp add: appends_def raise_io_def)

lemma appends_lift: "appends S (lift_e m)"
  by (simp add: appends_def lift_e_def)

lemma appends_get: "Get req \<in> S \<Longrightarrow> appends S (get E req)"
  by (simp add: appends_def get_def Let_def)

lemma appends_call: "Call argv cwd verbose \<in> S \<Longrightarrow> appends S (call E argv cwd verbose)"
  by (simp add: appends_def call_def Let_def)

lemma appends_bind:
  assumes "appends S m" and "\<And>x. appends S (f x)"
  shows "appends S (bind_io m f)"
  unfolding appends_def
proof
  fix log
  obtain n1 where n1: "snd (m log) = log @ n1" "set n1 \<subseteq> S"
    using assms(1) unfolding appends_def by blast
  show "\<exists>new. snd (bind_io m f log) = log @ new \<and> set new \<subseteq> S"
  proof (cases "m log")
    case (Pair r log')
    then have log': "log' = log @ n1" using n1 by simp
    show ?thesis
    proof (cases r)
      case None
      then show ?thesis using Pair log' n1 by (simp add: bind_io_def)
    next
      case (Some v)
      show ?thesis
      proof (cases v)
        case (Inl e)
        then show ?thesis using Pair Some log' n1 by (simp add: bind_io_def)
      next
        case (Inr x)
        obtain n2 where n2: "snd (f x log') = log' @ n2" "set n2 \<subseteq> S"
          using assms(2) [of x] unfolding appends_def by blast
        have "snd (bind_io m f log) = log @ (n1 @ n2)"
          using Pair Some Inr log' n2 by (simp add: bind_io_def)
        moreover have "set (n1 @ n2) \<subseteq> S" using n1 n2 by simp
        ultimately show ?thesis by blast
      qed
    qed
  qed
qed

lemma appends_if: "appends S m \<Longrightarrow> appends S m' \<Longrightarrow> appends S (if b then m else m')"
  by simp

lemma appends_pushed: "range Get \<subseteq> S \<Longrightarrow> appends S (pushed E cfg name version)"
  unfolding pushed_def authenticate_def
  by (intro appends_bind appends_if appends_get appends_lift appends_return) auto

lemma appends_baked:
  "Call [Str ''docker'', Str ''images'', Str ''-q'',
         Str (image_ref E (registry cfg) (repo cfg) name version)] None False \<in> S \<Longrightarrow>
   appends S (baked E cfg name version)"
  unfolding baked_def by (rule appends_call)

lemma appends_push_select: "appends {ev. \<not> is_push ev} (push_select E cfg item)"
proof -
  obtain svc name container where item: "item = (svc, name, container)" by (cases item)
  show ?thesis
    unfolding item push_select_def prod.case
    by (intro appends_bind appends_if appends_return appends_pushed appends_baked) auto
qed

lemma appends_run_jobs:
  assumes "\<And>x. appends S (fn x)"
  shows "\<exists>new. snd (run_jobs fn xs log) = log @ new \<and> set new \<subseteq> S"
proof (induction xs arbitrary: log)
  case Nil
  show ?case by simp
next
  case (Cons x xs)
  obtain r log' where step: "fn x log = (r, log')" by (cases "fn x log")
  obtain n1 where n1: "log' = log @ n1" "set n1 \<subseteq> S"
    using assms [of x] step unfolding appends_def by (metis snd_conv)
  obtain n2 where n2: "snd (run_jobs fn xs log') = log' @ n2" "set n2 \<subseteq> S"
    using Cons [of log'] by blast
  obtain rs log'' where rest: "run_jobs fn xs log' = (rs, log'')" by (cases "run_jobs fn xs log'")
  have "snd (run_jobs fn (x # xs) log) = log @ (n1 @ n2)"
    using step rest n1 n2 by simp
  moreover have "set (n1 @ n2) \<subseteq> S" using n1 n2 by simp
  ultimately show ?case by blast
qed

lemma push_image_step:
  "push_image E cfg x log =
     (Some (Inr (Val (cmd_output E (log @ [docker_push E cfg x])))), log @ [docker_push E cfg x])"
proof -
  obtain svc name container where x: "x = (svc, name, container)" by (cases x)
  show ?thesis by (simp add: x push_image_def docker_push_def io_simps)
qed

lemma push_image_jobs:
  "snd (run_jobs (push_image E cfg) xs log) = log @ map (docker_push E cfg) xs \<and>
   (\<exists>vs. gather (fst (run_jobs (push_image E cfg) xs log)) = Some (Inr vs))"
proof (induction xs arbitrary: log)
  case Nil
  show ?case by simp
next
  case (Cons x xs)
  let ?log' = "log @ [docker_push E cfg x]"
  obtain rs log'' where rest: "run_jobs (push_image E cfg) xs ?log' = (rs, log'')"
    by (cases "run_jobs (push_image E cfg) xs ?log'")
  obtain vs where ih: "log'' = ?log' @ map (docker_push E cfg) xs" "gather rs = Some (Inr vs)"
    using Cons [of ?log'] rest by auto
  have run: "run_jobs (push_image E cfg) (x # xs) log =
      (Some (Inr (Val (cmd_output E ?log'))) # rs, log'')"
    by (simp add: push_image_step rest)
  show ?case
    unfolding run using ih by simp
qed

lemma push_select_decides:
  assumes "baked E cfg name (svc_version svc) l = (Some (Inr built), l1)"
      and "pushed E cfg name (svc_version svc) l1 = (Some (Inr p), l2)"
  shows "fst (push_select E cfg (svc, name, c) l) =
           Some (Inr (if built \<noteq> [] \<and> \<not> p then Val (svc, name, c) else OMIT))"
  using assms by (simp add: push_select_def bind_io_apply return_io_apply)

text \<open>
  C5. In \<open>push\<close>, the mapped function keeps a container exactly when \<open>baked\<close> gives a
  non-empty output (built locally) and \<open>pushed\<close>, asked after it, answers false (not
  published); the candidates are the containers kept, in order; the selection makes no
  \<^verbatim>\<open>docker push\<close> call, and after it \<open>push\<close> logs in if there is a candidate
  and calls \<^verbatim>\<open>docker push\<close> once for each candidate and for nothing else.
\<close>

theorem push_selects_built_unpublished:
  assumes "scan E cfg root log = (Some (Inr (protos, svcs)), log0)"
      and "async_map (push_select E cfg) (containers E svcs) [] log0 = (Some (Inr local), log1)"
  shows "push E cfg root log =
           (Some (Inr ()),
            log1 @ (if local = [] then [] else [login_call cfg]) @ map (docker_push E cfg) local) \<and>
         filter is_push (drop (length log) log1) = [] \<and>
         gather (fst (run_jobs (push_select E cfg) (containers E svcs) log0)) = Some (Inr local) \<and>
         (\<forall>svc name c l built l1 p l2.
            baked E cfg name (svc_version svc) l = (Some (Inr built), l1) \<and>
            pushed E cfg name (svc_version svc) l1 = (Some (Inr p), l2) \<longrightarrow>
            fst (push_select E cfg (svc, name, c) l) =
              Some (Inr (if built \<noteq> [] \<and> \<not> p then Val (svc, name, c) else OMIT)))"
proof -
  have seq: "gather (fst (run_jobs (push_select E cfg) (containers E svcs) log0)) = Some (Inr local)"
       and log1: "log1 = snd (run_jobs (push_select E cfg) (containers E svcs) log0)"
    using assms(2) by (simp_all add: async_map_spawn_order)
  obtain n0 where n0: "log0 = log @ n0" "set n0 \<subseteq> range rev_parse"
    using scan_ledger [OF assms(1)] by blast
  obtain n1 where n1: "log1 = log0 @ n1" "set n1 \<subseteq> {ev. \<not> is_push ev}"
    using appends_run_jobs [of "{ev. \<not> is_push ev}" "push_select E cfg" "containers E svcs" log0]
      appends_push_select log1 by metis
  have "filter is_push n0 = []"
    using n0(2) by (auto simp: filter_empty_conv rev_parse_def)
  moreover have "filter is_push n1 = []"
    using n1(2) by (auto simp: filter_empty_conv)
  ultimately have quiet: "filter is_push (drop (length log) log1) = []"
    using n0 n1 by simp
  have login: "(if local \<noteq> [] then docker_login E cfg else return_io ()) log1 =
      (Some (Inr ()), log1 @ (if local = [] then [] else [login_call cfg]))"
    by (simp add: docker_login_def login_call_def io_simps)
  let ?log2 = "log1 @ (if local = [] then [] else [login_call cfg])"
  obtain vs where vs: "gather (fst (run_jobs (push_image E cfg) local ?log2)) = Some (Inr vs)"
    using push_image_jobs [of E cfg local ?log2] by blast
  have pushes: "force (async_map (push_image E cfg) local []) ?log2 =
      (Some (Inr ()), ?log2 @ map (docker_push E cfg) local)"
    using vs push_image_jobs [of E cfg local ?log2]
    by (simp add: force_def bind_io_apply return_io_apply async_map_spawn_order)
  have run: "push E cfg root log =
           (Some (Inr ()),
            log1 @ (if local = [] then [] else [login_call cfg]) @ map (docker_push E cfg) local)"
    using assms login pushes by (simp add: push_def bind_io_apply)
  have decide: "fst (push_select E cfg (svc, name, c) l) =
              Some (Inr (if built \<noteq> [] \<and> \<not> p then Val (svc, name, c) else OMIT))"
    if "baked E cfg name (svc_version svc) l = (Some (Inr built), l1)"
       "pushed E cfg name (svc_version svc) l1 = (Some (Inr p), l2)"
    for svc name c l built l1 p l2
    using that by (rule push_select_decides)
  from run quiet seq decide show ?thesis by blast
qed

lemma built_world_scan:
  "scan built_world demo_config one_container [] =
     (Some (Inr ([], [built_service])), [rev_parse ''/w/s1''])"
  by (simp add: built_world_def scan_eval one_container_def built_service_def rev_parse_def)

lemma built_world_select:
  "\<exists>log1. async_map (push_select built_world demo_config) (containers built_world [built_service]) []
     [rev_parse ''/w/s1''] =
   (Some (Inr [(built_service, ''/w/s1'', ''Dockerfile'')]), log1)"
  by (simp add: async_map_def run_order_def run_thread_def push_select_def built_world_def
      built_service_def eval_simps open_registry_def unknown_body_def)

theorem push_selects_built_unpublished_witness:
  "\<exists>log1. push built_world demo_config one_container [] =
      (Some (Inr ()),
       log1 @ [login_call demo_config,
               docker_push built_world demo_config (built_service, ''/w/s1'', ''Dockerfile'')]) \<and>
      filter is_push log1 = []"
proof -
  obtain log1 where sel: "async_map (push_select built_world demo_config)
      (containers built_world [built_service]) [] [rev_parse ''/w/s1''] =
      (Some (Inr [(built_service, ''/w/s1'', ''Dockerfile'')]), log1)"
    using built_world_select by blast
  from push_selects_built_unpublished [OF built_world_scan sel]
  have "push built_world demo_config one_container [] =
      (Some (Inr ()),
       log1 @ [login_call demo_config,
               docker_push built_world demo_config (built_service, ''/w/s1'', ''Dockerfile'')]) \<and>
      filter is_push log1 = []"
    by simp
  then show ?thesis ..
qed

section \<open>Workspace scanner: the scan follows the rules on names\<close>

lemma path_of_snoc: "path_of wd (d @ [n]) = os_path_join (path_of wd d) n"
  by (simp add: path_of_def)

lemma mirrors_length: "mirrors E cfg st pl \<Longrightarrow> length (services st) = length (snd pl)"
  unfolding mirrors_def by (metis length_map)

lemma mirrors_nth:
  "mirrors E cfg st pl \<Longrightarrow> i < length (snd pl) \<Longrightarrow>
   service_view (services st ! i) = service_at E cfg (snd pl ! i)"
  unfolding mirrors_def by (metis length_map nth_map)

lemma mirrors_found_service:
  assumes "mirrors E cfg st (ps, ss)"
  shows "mirrors E cfg (found_service E (path_of (workdir cfg) d) st) (ps, ss @ [(d, [])])"
  using assms
  by (simp add: mirrors_def found_service_def Let_def service_view_def service_at_def
      descriptor_at_def containers_at_def)

lemma mirrors_add_container:
  assumes "mirrors E cfg st (ps, ss)"
  shows "mirrors E cfg (add_container E (path_of (workdir cfg) d) i st)
           (ps, ss[i := (fst (ss ! i), snd (ss ! i) @ [d])])"
proof (cases "i < length ss")
  case False
  then have "length ss \<le> i" "length (services st) \<le> i"
    using mirrors_length [OF assms] by simp_all
  then show ?thesis
    using assms by (simp add: add_container_def Let_def mirrors_def list_update_beyond)
next
  case True
  obtain q ds where qd: "ss ! i = (q, ds)" by (cases "ss ! i")
  have len: "length (services st) = length ss" using mirrors_length [OF assms] by simp
  have view: "service_view (services st ! i) = service_at E cfg (q, ds)"
    using mirrors_nth [OF assms, of i] True qd by simp
  then have root: "svc_root (services st ! i) = service_root E (descriptor_at cfg q)"
    and descr: "svc_descriptor (services st ! i) = descriptor_at cfg q"
    and conts: "svc_containers (services st ! i) = containers_at E cfg q ds"
    by (simp_all add: service_view_def service_at_def)
  have new: "service_view ((services st ! i)\<lparr>svc_containers := svc_containers (services st ! i) @
        [relpath E (os_path_join (path_of (workdir cfg) d) ''Dockerfile'') (svc_root (services st ! i))]\<rparr>)
      = service_at E cfg (q, ds @ [d])"
    by (simp add: service_view_def service_at_def root descr conts containers_at_def)
  have "map service_view (services (add_container E (path_of (workdir cfg) d) i st)) =
      (map service_view (services st))[i := service_at E cfg (q, ds @ [d])]"
    by (simp add: add_container_def Let_def map_update new)
  also have "\<dots> = (map (service_at E cfg) ss)[i := service_at E cfg (q, ds @ [d])]"
    using assms by (simp add: mirrors_def)
  also have "\<dots> = map (service_at E cfg) (ss[i := (q, ds @ [d])])"
    by (simp add: map_update)
  finally show ?thesis
    using assms by (simp add: mirrors_def qd add_container_def Let_def)
qed

lemma mirrors_enter:
  assumes "mirrors E cfg st pl"
  shows "fst (enter E (path_of (workdir cfg) d) parent entries st) = fst (place_here d parent entries pl) \<and>
         mirrors E cfg (snd (enter E (path_of (workdir cfg) d) parent entries st))
           (snd (place_here d parent entries pl))"
proof -
  obtain ps ss where pl: "pl = (ps, ss)" by (cases pl)
  have len: "length (services st) = length ss" using mirrors_length [OF assms] pl by simp
  let ?path = "path_of (workdir cfg) d"
  show ?thesis
  proof (cases "has_name ''service.yaml'' entries")
    case True
    note s1 = mirrors_found_service [OF assms [unfolded pl], of d]
    show ?thesis
    proof (cases "has_name ''Dockerfile'' entries")
      case docker: True
      show ?thesis
        using True docker len mirrors_add_container [OF s1, of d "length ss"]
        by (simp add: enter_def place_here_def pl Let_def)
    next
      case False
      then show ?thesis
        using True len s1 by (simp add: enter_def place_here_def pl Let_def)
    qed
  next
    case False
    show ?thesis
    proof (cases "has_name ''Dockerfile'' entries")
      case docker: True
      show ?thesis
      proof (cases parent)
        case None
        then show ?thesis
          using False docker assms by (simp add: enter_def place_here_def pl Let_def)
      next
        case (Some i)
        then show ?thesis
          using False docker mirrors_add_container [OF assms [unfolded pl], of d i]
          by (simp add: enter_def place_here_def pl Let_def)
      qed
    next
      case nodocker: False
      then show ?thesis
        using False assms by (simp add: enter_def place_here_def pl Let_def)
    qed
  qed
qed

lemma descend_mirrors:
  "\<forall>d pl. path = path_of (workdir cfg) d \<longrightarrow> mirrors E cfg st pl \<longrightarrow>
     mirrors E cfg (descend E path parent entries st) (place d parent entries pl)"
  "\<forall>d pl. path = path_of (workdir cfg) d \<longrightarrow> mirrors E cfg st pl \<longrightarrow>
     mirrors E cfg (descend_each E path parent entries st) (place_each d parent entries pl)"
proof (induction E path parent entries st and E path parent entries st
    rule: descend_descend_each.induct)
  case (1 E path parent entries st)
  show ?case
  proof (intro allI impI)
    fix d pl
    assume path: "path = path_of (workdir cfg) d" and m: "mirrors E cfg st pl"
    show "mirrors E cfg (descend E path parent entries st) (place d parent entries pl)"
    proof (cases "has_name ''proto.yaml'' entries")
      case True
      then show ?thesis
        using m path by (simp add: mirrors_def add_prototype_def prototype_at_def)
    next
      case False
      have e: "fst (enter E path parent entries st) = fst (place_here d parent entries pl)"
          "mirrors E cfg (snd (enter E path parent entries st)) (snd (place_here d parent entries pl))"
        using mirrors_enter [OF m, of d parent entries] path by simp_all
      have "mirrors E cfg
          (descend_each E path (fst (enter E path parent entries st)) entries
             (snd (enter E path parent entries st)))
          (place_each d (fst (enter E path parent entries st)) entries
             (snd (place_here d parent entries pl)))"
        using 1 [OF False] path e(2) by blast
      then show ?thesis using False e(1) by simp
    qed
  qed
next
  case (2 E path parent st)
  show ?case by simp
next
  case (3 E path parent n rest st)
  then show ?case by simp
next
  case (4 E path parent n sub rest st)
  show ?case
  proof (intro allI impI)
    fix d pl
    assume path: "path = path_of (workdir cfg) d" and m: "mirrors E cfg st pl"
    show "mirrors E cfg (descend_each E path parent ((n, Dir sub) # rest) st)
            (place_each d parent ((n, Dir sub) # rest) pl)"
    proof (cases "n \<in> set EXCLUDED")
      case True
      have "mirrors E cfg (descend_each E path parent rest st) (place_each d parent rest pl)"
        using 4(1) [OF True] path m by blast
      then show ?thesis using True by simp
    next
      case False
      have child: "os_path_join path n = path_of (workdir cfg) (d @ [n])"
        using path by (simp add: path_of_snoc)
      have "mirrors E cfg (descend E (os_path_join path n) parent sub st)
              (place (d @ [n]) parent sub pl)"
        using 4(2) [OF False] child m by blast
      then have "mirrors E cfg
          (descend_each E path parent rest (descend E (os_path_join path n) parent sub st))
          (place_each d parent rest (place (d @ [n]) parent sub pl))"
        using 4(3) [OF False] path by blast
      then show ?thesis using False by simp
    qed
  qed
qed

lemma scan_mirrors:
  assumes "scan E cfg (Dir es) log = (Some (Inr (protos, svcs)), log')"
  shows "protos = map (prototype_at cfg) (fst (placement_of es)) \<and>
         map service_view svcs = map (service_at E cfg) (snd (placement_of es))"
proof -
  let ?st = "\<lparr>prototypes = [], services = [], ledger = log\<rparr>"
  have "mirrors E cfg ?st ([], [])" by (simp add: mirrors_def)
  moreover have "workdir cfg = path_of (workdir cfg) []" by (simp add: path_of_def)
  ultimately have "mirrors E cfg (descend E (workdir cfg) None es ?st) (placement_of es)"
    unfolding placement_of_def using descend_mirrors(1) by blast
  then show ?thesis
    using assms by (auto simp: scan_def Let_def mirrors_def)
qed

lemma entries_at_snoc:
  "entries_at es (d @ [n]) =
     (case entries_at es d of
        None \<Rightarrow> None
      | Some entries \<Rightarrow> (case map_of entries n of Some (Dir sub) \<Rightarrow> Some sub | _ \<Rightarrow> None))"
  by (induction d arbitrary: es) (auto split: option.splits node.splits)

lemma marked_at: "entries_at es d = Some entries \<Longrightarrow> marked m es d = has_name m entries"
  by (simp add: marked_def)

lemma under_prototype_iff: "under_prototype es d \<longleftrightarrow> (\<exists>p. prefix p d \<and> marked ''proto.yaml'' es p)"
  by (auto simp: under_prototype_def)

lemma under_prototype_snoc:
  "under_prototype es (d @ [n]) \<longleftrightarrow> under_prototype es d \<or> marked ''proto.yaml'' es (d @ [n])"
  by (auto simp: under_prototype_def)

lemma nearest_service_snoc:
  "nearest_service es (d @ [n]) =
     (if marked ''service.yaml'' es (d @ [n]) then Some (d @ [n]) else nearest_service es d)"
  by (simp add: nearest_service_def)

lemma nearest_service_Nil:
  "nearest_service es [] = (if marked ''service.yaml'' es [] then Some [] else None)"
  by (simp add: nearest_service_def)

lemma prefix_snoc_same: "prefix (d @ [n]) q \<Longrightarrow> prefix (d @ [m]) q \<Longrightarrow> n = m"
  by (auto simp: prefix_def append_eq_append_conv2 Cons_eq_append_conv)

lemma wf_entries_distinct: "wf_entries es \<Longrightarrow> distinct (map fst es)"
  by (induction es) force+

lemma owner_ok_extend:
  assumes "owner_ok current ss owner" and "map fst ss' = map fst ss @ news"
  shows "owner_ok current ss' owner"
proof (cases current)
  case None
  then show ?thesis using assms(1) by (simp add: owner_ok_def)
next
  case (Some i)
  then have i: "i < length ss" and o: "owner = Some (fst (ss ! i))"
    using assms(1) by (simp_all add: owner_ok_def)
  have len: "length ss' = length ss + length news"
    using assms(2) by (metis length_append length_map)
  have "fst (ss' ! i) = (map fst ss') ! i" using i len by simp
  also have "\<dots> = (map fst ss @ news) ! i" using assms(2) by simp
  also have "\<dots> = fst (ss ! i)" using i by (simp add: nth_append)
  finally show ?thesis using Some i o len by (simp add: owner_ok_def)
qed

lemma map_fst_update:
  "map fst (ss[i := (fst (ss ! i), x)]) = map fst ss"
proof (cases "i < length ss")
  case True
  then show ?thesis by (simp add: map_update list_update_same_conv)
next
  case False
  then show ?thesis by (simp add: list_update_beyond)
qed

lemma settled_update:
  assumes "settled es ss" and "i < length ss" and "attributed es (fst (ss ! i)) d"
  shows "settled es (ss[i := (fst (ss ! i), snd (ss ! i) @ [d])])"
  unfolding settled_def
proof (intro ballI)
  fix s d'
  assume s: "s \<in> set (ss[i := (fst (ss ! i), snd (ss ! i) @ [d])])" and d': "d' \<in> set (snd s)"
  from s have "s = (fst (ss ! i), snd (ss ! i) @ [d]) \<or> s \<in> set ss"
    using set_update_subset_insert by fastforce
  then show "attributed es (fst s) d'"
  proof
    assume new: "s = (fst (ss ! i), snd (ss ! i) @ [d])"
    have "ss ! i \<in> set ss" using assms(2) by simp
    then show ?thesis
      using new d' assms(1,3) by (auto simp: settled_def)
  next
    assume "s \<in> set ss"
    then show ?thesis using d' assms(1) by (auto simp: settled_def)
  qed
qed

lemma settled_new: "settled es ss \<Longrightarrow> settled es (ss @ [(d, [])])"
  by (auto simp: settled_def)

lemma place_here_sound:
  assumes at: "entries_at es d = Some entries"
      and clear: "\<not> under_prototype es d"
      and own: "owner_ok current ss owner"
      and near: "nearest_service es d = (if marked ''service.yaml'' es d then Some d else owner)"
      and inv: "settled es ss" "distinct (map fst ss)"
      and fresh: "\<forall>q \<in> set (map fst ss). \<not> prefix d q"
  shows "owner_ok (fst (place_here d current entries (ps, ss)))
           (snd (snd (place_here d current entries (ps, ss)))) (nearest_service es d) \<and>
         settled es (snd (snd (place_here d current entries (ps, ss)))) \<and>
         distinct (map fst (snd (snd (place_here d current entries (ps, ss))))) \<and>
         map fst (snd (snd (place_here d current entries (ps, ss)))) =
           map fst ss @ (if has_name ''service.yaml'' entries then [d] else []) \<and>
         fst (snd (place_here d current entries (ps, ss))) = ps"
proof -
  define ss1 where "ss1 = (if has_name ''service.yaml'' entries then ss @ [(d, [])] else ss)"
  define c1 where "c1 = (if has_name ''service.yaml'' entries then Some (length ss) else current)"
  define ss2 where "ss2 = (if has_name ''Dockerfile'' entries
                then (case c1 of None \<Rightarrow> ss1 | Some i \<Rightarrow> ss1[i := (fst (ss1 ! i), snd (ss1 ! i) @ [d])])
                else ss1)"
  have res: "place_here d current entries (ps, ss) = (c1, (ps, ss2))"
    by (simp add: place_here_def Let_def ss1_def c1_def ss2_def split: option.splits)
  have m: "marked ''service.yaml'' es d = has_name ''service.yaml'' entries"
    using at by (rule marked_at)
  have md: "marked ''Dockerfile'' es d = has_name ''Dockerfile'' entries"
    using at by (rule marked_at)
  have fst1: "map fst ss1 = map fst ss @ (if has_name ''service.yaml'' entries then [d] else [])"
    by (simp add: ss1_def)
  have own1: "owner_ok c1 ss1 (nearest_service es d)"
  proof (cases "has_name ''service.yaml'' entries")
    case True
    then show ?thesis using near m by (simp add: owner_ok_def c1_def ss1_def)
  next
    case False
    then show ?thesis using near m own by (simp add: c1_def ss1_def)
  qed
  have set1: "settled es ss1" using inv(1) by (simp add: ss1_def settled_new)
  have d_new: "d \<notin> set (map fst ss)" using fresh by auto
  have dist1: "distinct (map fst ss1)" using inv(2) d_new by (simp add: ss1_def)
  have fst2: "map fst ss2 = map fst ss1"
    by (simp add: ss2_def map_fst_update split: option.splits)
  have own2: "owner_ok c1 ss2 (nearest_service es d)"
    using own1 fst2 owner_ok_extend [of c1 ss1 "nearest_service es d" ss2 "[]"] by simp
  have set2: "settled es ss2"
  proof (cases "has_name ''Dockerfile'' entries")
    case False
    then show ?thesis using set1 by (simp add: ss2_def)
  next
    case True
    show ?thesis
    proof (cases c1)
      case None
      then show ?thesis using set1 True by (simp add: ss2_def)
    next
      case (Some i)
      then have i: "i < length ss1" and o: "nearest_service es d = Some (fst (ss1 ! i))"
        using own1 by (simp_all add: owner_ok_def)
      have "attributed es (fst (ss1 ! i)) d"
        using True md clear o by (simp add: attributed_def)
      then have "settled es (ss1[i := (fst (ss1 ! i), snd (ss1 ! i) @ [d])])"
        using set1 i by (intro settled_update)
      then show ?thesis using True Some by (simp add: ss2_def)
    qed
  qed
  show ?thesis
    unfolding res using own2 set2 dist1 fst1 fst2 by simp
qed

lemma grows_refl: "settled es ss \<Longrightarrow> distinct (map fst ss) \<Longrightarrow> grows es D ss ss"
  by (simp add: grows_def)

lemma grows_trans:
  assumes "map fst ss1 = map fst ss @ news0" and "\<forall>q \<in> set news0. \<exists>r \<in> D. prefix r q"
      and "grows es D1 ss1 ss2" and "\<forall>r \<in> D1. \<exists>r' \<in> D. prefix r' r"
  shows "grows es D ss ss2"
proof -
  obtain news where news: "map fst ss2 = map fst ss1 @ news" "\<forall>q \<in> set news. \<exists>r \<in> D1. prefix r q"
    using assms(3) by (auto simp: grows_def)
  have "\<forall>q \<in> set news. \<exists>r \<in> D. prefix r q"
    using news(2) assms(4) by (meson prefix_order.trans)
  then have "\<forall>q \<in> set (news0 @ news). \<exists>r \<in> D. prefix r q"
    using assms(2) by auto
  moreover have "map fst ss2 = map fst ss @ (news0 @ news)"
    using news(1) assms(1) by simp
  ultimately show ?thesis
    using assms(3) unfolding grows_def by blast
qed

lemma place_sound:
  "\<forall>owner. entries_at es d = Some entries \<longrightarrow> wf_entries entries \<longrightarrow>
      (\<forall>p. strict_prefix p d \<longrightarrow> \<not> marked ''proto.yaml'' es p) \<longrightarrow>
      owner_ok current (snd pl) owner \<longrightarrow>
      nearest_service es d = (if marked ''service.yaml'' es d then Some d else owner) \<longrightarrow>
      settled es (snd pl) \<longrightarrow> distinct (map fst (snd pl)) \<longrightarrow>
      (\<forall>q \<in> set (map fst (snd pl)). \<not> prefix d q) \<longrightarrow>
      grows es {d} (snd pl) (snd (place d current entries pl))"
  "\<forall>all. entries_at es d = Some all \<longrightarrow> distinct (map fst all) \<longrightarrow>
      set entries \<subseteq> set all \<longrightarrow> wf_entries entries \<longrightarrow> \<not> under_prototype es d \<longrightarrow>
      owner_ok current (snd pl) (nearest_service es d) \<longrightarrow>
      settled es (snd pl) \<longrightarrow> distinct (map fst (snd pl)) \<longrightarrow>
      (\<forall>q \<in> set (map fst (snd pl)). \<forall>n \<in> set (map fst entries). \<not> prefix (d @ [n]) q) \<longrightarrow>
      grows es ((\<lambda>n. d @ [n]) ` set (map fst entries)) (snd pl) (snd (place_each d current entries pl))"
proof (induction d current entries pl and d current entries pl rule: place_place_each.induct)
  case (1 d current entries pl)
  show ?case
  proof (intro allI impI)
    fix owner
    assume at: "entries_at es d = Some entries"
      and wf: "wf_entries entries"
      and above: "\<forall>p. strict_prefix p d \<longrightarrow> \<not> marked ''proto.yaml'' es p"
      and own: "owner_ok current (snd pl) owner"
      and near: "nearest_service es d = (if marked ''service.yaml'' es d then Some d else owner)"
      and inv: "settled es (snd pl)" "distinct (map fst (snd pl))"
      and fresh: "\<forall>q \<in> set (map fst (snd pl)). \<not> prefix d q"
    show "grows es {d} (snd pl) (snd (place d current entries pl))"
    proof (cases "has_name ''proto.yaml'' entries")
      case True
      then show ?thesis using inv by (simp add: grows_refl)
    next
      case False
      obtain ps ss where pl: "pl = (ps, ss)" by (cases pl)
      have "\<not> marked ''proto.yaml'' es d" using False marked_at [OF at] by simp
      then have clear: "\<not> under_prototype es d"
        using above by (auto simp: under_prototype_iff strict_prefix_def)
      let ?here = "place_here d current entries pl"
      have here: "owner_ok (fst ?here) (snd (snd ?here)) (nearest_service es d)"
          "settled es (snd (snd ?here))" "distinct (map fst (snd (snd ?here)))"
          "map fst (snd (snd ?here)) = map fst ss @ (if has_name ''service.yaml'' entries then [d] else [])"
        using place_here_sound [OF at clear own [unfolded pl snd_conv] near inv [unfolded pl snd_conv]
            fresh [unfolded pl snd_conv], of ps]
        unfolding pl by blast+
      have fresh': "\<forall>q \<in> set (map fst (snd (snd ?here))). \<forall>n \<in> set (map fst entries). \<not> prefix (d @ [n]) q"
      proof (intro ballI)
        fix q n
        assume "q \<in> set (map fst (snd (snd ?here)))"
        then have "q \<in> set (map fst ss) \<or> q = d"
          unfolding here(4) by (auto split: if_splits)
        then show "\<not> prefix (d @ [n]) q"
        proof
          assume "q \<in> set (map fst ss)"
          then have "\<not> prefix d q" using fresh pl by auto
          then show ?thesis by (meson prefix_order.trans prefixI)
        next
          assume "q = d"
          then show ?thesis by (simp add: prefix_def)
        qed
      qed
      have below: "grows es ((\<lambda>n. d @ [n]) ` set (map fst entries)) (snd (snd ?here))
          (snd (place_each d (fst ?here) entries (snd ?here)))"
        using 1 [OF False] at wf_entries_distinct [OF wf] wf clear here(1,2,3) fresh'
        by blast
      have "grows es {d} ss (snd (place_each d (fst ?here) entries (snd ?here)))"
      proof (rule grows_trans [OF here(4) _ below])
        show "\<forall>q\<in>set (if has_name ''service.yaml'' entries then [d] else []). \<exists>r\<in>{d}. prefix r q"
          by simp
        show "\<forall>r\<in>(\<lambda>n. d @ [n]) ` set (map fst entries). \<exists>r'\<in>{d}. prefix r' r"
          by auto
      qed
      then show ?thesis using False pl by simp
    qed
  qed
next
  case (2 d current pl)
  show ?case by (simp add: grows_refl)
next
  case (3 d current n rest pl)
  show ?case
  proof (intro allI impI)
    fix all
    assume a: "entries_at es d = Some all" "distinct (map fst all)"
      "set ((n, File) # rest) \<subseteq> set all" "wf_entries ((n, File) # rest)"
      "\<not> under_prototype es d" "owner_ok current (snd pl) (nearest_service es d)"
      "settled es (snd pl)" "distinct (map fst (snd pl))"
      "\<forall>q \<in> set (map fst (snd pl)). \<forall>m \<in> set (map fst ((n, File) # rest)). \<not> prefix (d @ [m]) q"
    have "grows es ((\<lambda>n. d @ [n]) ` set (map fst rest)) (snd pl) (snd (place_each d current rest pl))"
      using 3 a by simp
    then have "grows es ((\<lambda>n. d @ [n]) ` set (map fst ((n, File) # rest))) (snd pl)
        (snd (place_each d current rest pl))"
      by (rule grows_trans [of _ _ "[]", rotated 2]) auto
    then show "grows es ((\<lambda>n. d @ [n]) ` set (map fst ((n, File) # rest))) (snd pl)
        (snd (place_each d current ((n, File) # rest) pl))"
      by simp
  qed
next
  case (4 d current n sub rest pl)
  show ?case
  proof (intro allI impI)
    fix all
    assume at: "entries_at es d = Some all" and dist: "distinct (map fst all)"
      and sub: "set ((n, Dir sub) # rest) \<subseteq> set all" and wf: "wf_entries ((n, Dir sub) # rest)"
      and clear: "\<not> under_prototype es d"
      and own: "owner_ok current (snd pl) (nearest_service es d)"
      and inv: "settled es (snd pl)" "distinct (map fst (snd pl))"
      and fresh: "\<forall>q \<in> set (map fst (snd pl)). \<forall>m \<in> set (map fst ((n, Dir sub) # rest)). \<not> prefix (d @ [m]) q"
    let ?D = "(\<lambda>n. d @ [n]) ` set (map fst ((n, Dir sub) # rest))"
    have sub': "set rest \<subseteq> set all" and wf': "wf_entries rest" and wfs: "wf_entries sub"
      and n_new: "n \<notin> set (map fst rest)"
      using sub wf by simp_all
    have fresh': "\<forall>q \<in> set (map fst (snd pl)). \<forall>m \<in> set (map fst rest). \<not> prefix (d @ [m]) q"
      using fresh by simp
    show "grows es ?D (snd pl) (snd (place_each d current ((n, Dir sub) # rest) pl))"
    proof (cases "n \<in> set EXCLUDED")
      case True
      have "grows es ((\<lambda>n. d @ [n]) ` set (map fst rest)) (snd pl) (snd (place_each d current rest pl))"
        using 4(1) [OF True] at dist sub' wf' clear own inv fresh' by blast
      then have "grows es ?D (snd pl) (snd (place_each d current rest pl))"
        by (rule grows_trans [of _ _ "[]", rotated 2]) auto
      then show ?thesis using True by simp
    next
      case False
      have "map_of all n = Some (Dir sub)"
        using sub dist by simp
      then have at': "entries_at es (d @ [n]) = Some sub"
        using at by (simp add: entries_at_snoc)
      have above: "\<forall>p. strict_prefix p (d @ [n]) \<longrightarrow> \<not> marked ''proto.yaml'' es p"
        using clear by (auto simp: under_prototype_iff strict_prefix_def)
      have near: "nearest_service es (d @ [n]) =
          (if marked ''service.yaml'' es (d @ [n]) then Some (d @ [n]) else nearest_service es d)"
        by (rule nearest_service_snoc)
      have fresh_n: "\<forall>q \<in> set (map fst (snd pl)). \<not> prefix (d @ [n]) q"
        using fresh by simp
      let ?pl1 = "place (d @ [n]) current sub pl"
      have g1: "grows es {d @ [n]} (snd pl) (snd ?pl1)"
        using 4(2) [OF False] at' wfs above own near inv fresh_n by blast
      then obtain news where news: "map fst (snd ?pl1) = map fst (snd pl) @ news"
          "\<forall>q \<in> set news. prefix (d @ [n]) q"
          and inv1: "settled es (snd ?pl1)" "distinct (map fst (snd ?pl1))"
        by (auto simp: grows_def)
      have own1: "owner_ok current (snd ?pl1) (nearest_service es d)"
        using own news(1) by (rule owner_ok_extend)
      have fresh1: "\<forall>q \<in> set (map fst (snd ?pl1)). \<forall>m \<in> set (map fst rest). \<not> prefix (d @ [m]) q"
      proof (intro ballI)
        fix q m
        assume q: "q \<in> set (map fst (snd ?pl1))" and m: "m \<in> set (map fst rest)"
        from q have "q \<in> set (map fst (snd pl)) \<or> q \<in> set news"
          unfolding news(1) by auto
        then show "\<not> prefix (d @ [m]) q"
        proof
          assume "q \<in> set (map fst (snd pl))"
          then show ?thesis using fresh' m by blast
        next
          assume "q \<in> set news"
          then have "prefix (d @ [n]) q" using news(2) by blast
          then show ?thesis using prefix_snoc_same [of d n q m] m n_new by blast
        qed
      qed
      have g2: "grows es ((\<lambda>n. d @ [n]) ` set (map fst rest)) (snd ?pl1)
          (snd (place_each d current rest ?pl1))"
        using 4(3) [OF False] at dist sub' wf' clear own1 inv1 fresh1 by blast
      have "grows es ?D (snd pl) (snd (place_each d current rest ?pl1))"
      proof (rule grows_trans [OF news(1) _ g2])
        show "\<forall>q\<in>set news. \<exists>r\<in>?D. prefix r q"
          using news(2) by auto
        show "\<forall>r\<in>(\<lambda>n. d @ [n]) ` set (map fst rest). \<exists>r'\<in>?D. prefix r' r"
          by auto
      qed
      then show ?thesis using False by simp
    qed
  qed
qed

lemma placement_sound:
  assumes "wf_entries es"
  shows "grows es {[]} [] (snd (placement_of es))"
proof -
  have "grows es {[]} (snd ([], [])) (snd (place [] None es ([], [])))"
    using place_sound(1) [of es "[]" es None "([], [])"] assms
    by (simp add: owner_ok_def nearest_service_Nil settled_def)
  then show ?thesis by (simp add: placement_of_def)
qed

text \<open>
  C9. A directory that lists \<^verbatim>\<open>proto.yaml\<close> is recorded as a prototype and
  \<open>descend\<close> does nothing else there: its subtree is not visited. For a workspace in
  which no directory lists a name twice, the prototypes and services that \<open>scan\<close>
  returns are those of the placement by the rules on names, every container directory
  of a service holds a container definition, is neither a prototype nor under one, and
  has the directory of that service as its nearest directory with a service marker;
  the services found are in different directories, so a directory is a container
  directory of at most one service.
\<close>

theorem scan_attribution:
  assumes "wf_entries es"
      and "scan E cfg (Dir es) log = (Some (Inr (protos, svcs)), log')"
  shows "protos = map (prototype_at cfg) (fst (placement_of es)) \<and>
         map service_view svcs = map (service_at E cfg) (snd (placement_of es)) \<and>
         settled es (snd (placement_of es)) \<and>
         distinct (map fst (snd (placement_of es))) \<and>
         (\<forall>i j d. i < length (snd (placement_of es)) \<and> j < length (snd (placement_of es)) \<and>
                  d \<in> set (snd (snd (placement_of es) ! i)) \<and>
                  d \<in> set (snd (snd (placement_of es) ! j)) \<longrightarrow> i = j) \<and>
         (\<forall>E' path parent entries st.
            has_name ''proto.yaml'' entries \<longrightarrow>
            descend E' path parent entries st = add_prototype path st)"
proof -
  let ?S = "snd (placement_of es)"
  have view: "protos = map (prototype_at cfg) (fst (placement_of es))"
      "map service_view svcs = map (service_at E cfg) ?S"
    using scan_mirrors [OF assms(2)] by simp_all
  have inv: "settled es ?S" "distinct (map fst ?S)"
    using placement_sound [OF assms(1)] by (simp_all add: grows_def)
  have one: "i = j"
    if "i < length ?S" "j < length ?S" "d \<in> set (snd (?S ! i))" "d \<in> set (snd (?S ! j))"
    for i j d
  proof -
    have "?S ! i \<in> set ?S" "?S ! j \<in> set ?S" using that by simp_all
    then have "attributed es (fst (?S ! i)) d" "attributed es (fst (?S ! j)) d"
      using inv(1) that unfolding settled_def by blast+
    then have "fst (?S ! i) = fst (?S ! j)" by (simp add: attributed_def)
    then have "map fst ?S ! i = map fst ?S ! j" using that by simp
    moreover have "i < length (map fst ?S)" "j < length (map fst ?S)" using that by simp_all
    ultimately show ?thesis
      using inv(2) nth_eq_iff_index_eq by blast
  qed
  have proto: "descend E' path parent entries st = add_prototype path st"
    if "has_name ''proto.yaml'' entries" for E' path parent entries st
    using that by simp
  from view inv one proto show ?thesis by blast
qed

lemma mixed_workspace_scan:
  "scan built_world demo_config (Dir mixed_workspace) [] =
     (Some (Inr ([''/w/proto/proto.yaml''], [mixed_service])), [rev_parse ''/w/s1''])"
  by (simp add: built_world_def scan_eval mixed_workspace_def mixed_service_def rev_parse_def)

lemma mixed_workspace_placement:
  "placement_of mixed_workspace = ([[''proto'']], [([''s1''], [[''s1''], [''s1'', ''sub'']])])"
  by (simp add: placement_of_def place_here_def has_name_def EXCLUDED_def mixed_workspace_def Let_def)

theorem scan_attribution_witness:
  "placement_of mixed_workspace = ([[''proto'']], [([''s1''], [[''s1''], [''s1'', ''sub'']])]) \<and>
   scan built_world demo_config (Dir mixed_workspace) [] =
     (Some (Inr ([''/w/proto/proto.yaml''], [mixed_service])), [rev_parse ''/w/s1'']) \<and>
   attributed mixed_workspace [''s1''] [''s1'', ''sub''] \<and>
   \<not> attributed mixed_workspace [''s1''] [''proto''] \<and>
   nearest_service mixed_workspace [''s1'', ''sub''] = Some [''s1''] \<and>
   under_prototype mixed_workspace [''proto'']"
proof -
  have wf: "wf_entries mixed_workspace"
    by (simp add: mixed_workspace_def)
  have "settled mixed_workspace (snd (placement_of mixed_workspace))"
    using scan_attribution [OF wf mixed_workspace_scan] by blast
  then have a: "attributed mixed_workspace [''s1''] [''s1'', ''sub'']"
    by (simp add: mixed_workspace_placement settled_def)
  have b: "under_prototype mixed_workspace [''proto'']"
    by (simp add: under_prototype_def marked_def has_name_def mixed_workspace_def)
  then have c: "\<not> attributed mixed_workspace [''s1''] [''proto'']"
    by (simp add: attributed_def)
  have d: "nearest_service mixed_workspace [''s1'', ''sub''] = Some [''s1'']"
    using a by (simp add: attributed_def)
  from mixed_workspace_placement mixed_workspace_scan a b c d show ?thesis by blast
qed


end
